theory Spec2Isabelle
  imports Main "HOL-Library.AList" "HOL-Library.Multiset"
begin

section \<open>gpodder.podcastparser: a shallow embedding\<close>

text \<open>
  The streaming RSS parser of \<^verbatim>\<open>src/gpodder/podcastparser.py\<close>: the field parsers,
  the Target classes, the module-level MAPPING table, the PodcastHandler with its
  three SAX callbacks, and \<^verbatim>\<open>parse\<close>.  Python exceptions are values of a sum type,
  the handler object is a record that every callback returns updated, and the episode
  dictionaries live in an explicit store, because \<^verbatim>\<open>handler.episodes\<close> and
  \<^verbatim>\<open>handler.data['episodes']\<close> may be two lists that share their dictionaries.
\<close>

subsection \<open>Python string primitives\<close>

definition is_space :: "char \<Rightarrow> bool" where
  \<comment> \<open>the characters \<^verbatim>\<open>str.strip()\<close> removes and \<^verbatim>\<open>\s\<close> matches: space, \t, \n, \v, \f, \r\<close>
  "is_space c = (c = CHR '' '' \<or> c = CHR 0x09 \<or> c = CHR 0x0A \<or> c = CHR 0x0B
                 \<or> c = CHR 0x0C \<or> c = CHR 0x0D)"

definition strip :: "string \<Rightarrow> string" where
  "strip s = rev (dropWhile is_space (rev (dropWhile is_space s)))"

definition lower_char :: "char \<Rightarrow> char" where
  "lower_char c = (let n = (of_char c :: nat) in
                   if 65 \<le> n \<and> n \<le> 90 then char_of (n + 32) else c)"

definition lower :: "string \<Rightarrow> string" where
  "lower s = map lower_char s"

fun join :: "string \<Rightarrow> string list \<Rightarrow> string" where
  "join sep [] = []"
| "join sep [x] = x"
| "join sep (x # y # ys) = x @ sep @ join sep (y # ys)"

text \<open>\<^verbatim>\<open>re.sub('\s+', ' ', s)\<close>: every maximal run of whitespace becomes one space.\<close>

function sub_spaces :: "string \<Rightarrow> string" where
  "sub_spaces [] = []"
| "sub_spaces (c # cs) =
     (if is_space c then CHR '' '' # sub_spaces (dropWhile is_space cs)
      else c # sub_spaces cs)"
  by pat_completeness auto
termination
  by (relation "measure length") (auto simp: length_dropWhile_le less_Suc_eq_le)

subsection \<open>External collaborators\<close>

text \<open>
  The modules \<^verbatim>\<open>util\<close>, \<^verbatim>\<open>youtube\<close>, \<^verbatim>\<open>vimeo\<close>, \<^verbatim>\<open>urlparse\<close> and the builtin
  \<^verbatim>\<open>long\<close> are not part of the parser; they are parameters of the model.  \<open>long\<close>
  returns \<open>None\<close> where the builtin raises ValueError.
\<close>

record env =
  urljoin :: "string \<Rightarrow> string \<Rightarrow> string"
  normalize_feed_url :: "string \<Rightarrow> string"
  parse_time :: "string \<Rightarrow> int"
  parse_date :: "string \<Rightarrow> int"
  youtube_is_video_link :: "string \<Rightarrow> bool"
  vimeo_is_video_link :: "string \<Rightarrow> bool"
  long :: "string \<Rightarrow> int option"

subsection \<open>Field parsers\<close>

definition squash_whitespace :: "string \<Rightarrow> string" where
  "squash_whitespace s = sub_spaces (strip s)"

definition parse_duration :: "env \<Rightarrow> string \<Rightarrow> int" where
  "parse_duration E s = parse_time E (strip s)"

definition parse_url :: "env \<Rightarrow> string \<Rightarrow> string" where
  "parse_url E s = normalize_feed_url E (strip s)"

definition parse_length :: "env \<Rightarrow> string option \<Rightarrow> int" where
  "parse_length E t =
     (case t of
        None \<Rightarrow> - 1
      | Some s \<Rightarrow>
          (case long E (strip s) of
             None \<Rightarrow> - 1
           | Some n \<Rightarrow> if n \<noteq> 0 then n else - 1))"

definition parse_type :: "string option \<Rightarrow> string" where
  "parse_type t =
     (case t of
        None \<Rightarrow> ''application/octet-stream''
      | Some s \<Rightarrow>
          if s = [] \<or> CHR ''/'' \<notin> set s then ''application/octet-stream'' else s)"

definition parse_pubdate :: "env \<Rightarrow> string \<Rightarrow> int" where
  "parse_pubdate E s = parse_date E s"

subsection \<open>Episodes, enclosures and the store\<close>

datatype error = IndexError | KeyError

record enclosure =
  enc_url :: string
  enc_file_size :: int
  enc_mime_type :: string

text \<open>
  An episode dictionary.  A key that may be missing is an option: \<open>title\<close>, \<open>url\<close> and
  \<open>guid\<close> are absent until set, \<open>enclosures\<close> and \<open>guid_is_permalink\<close> (the key
  \<^verbatim>\<open>_guid_is_permalink\<close>) are present until deleted.  \<open>payment_url\<close> is always present
  and holds \<^verbatim>\<open>None\<close> or a string.
\<close>

record entry =
  title :: "string option"
  description :: string
  url :: "string option"
  published :: int
  link :: string
  guid :: "string option"
  file_size :: int
  mime_type :: string
  total_time :: int
  payment_url :: "string option"
  enclosures :: "enclosure list option"
  guid_is_permalink :: "bool option"

definition new_entry :: entry where
  "new_entry = \<lparr> title = None, description = [], url = None, published = 0, link = [],
     guid = None, file_size = - 1, mime_type = ''application/octet-stream'',
     total_time = 0, payment_url = None, enclosures = Some [],
     guid_is_permalink = Some False \<rparr>"

subsection \<open>Targets and the MAPPING table\<close>

text \<open>
  A Target object is its class, its key and its \<^verbatim>\<open>filter_func\<close>.  The functions that
  occur as \<^verbatim>\<open>filter_func\<close> are named: the default \<^verbatim>\<open>lambda x: x.strip()\<close>,
  \<^verbatim>\<open>squash_whitespace\<close>, \<^verbatim>\<open>parse_duration\<close>, \<^verbatim>\<open>parse_pubdate\<close>, and the closure that
  \<^verbatim>\<open>EpisodeGuid.end\<close> creates.  Keys and filters are split by the type of the value they
  carry (text or integer); classes that never read their key carry none.
\<close>

datatype podcast_key = P_title | P_link | P_description | P_cover_url | P_payment_url

datatype text_key = E_title | E_link | E_description | E_guid | E_payment_url

datatype int_key = E_total_time | E_published

datatype text_filter = F_strip | F_squash_whitespace | F_guid_closure

datatype int_filter = F_parse_duration | F_parse_pubdate

datatype target =
    RSS
  | PodcastItem
  | PodcastAttr podcast_key text_filter
  | PodcastAttrFromHref podcast_key text_filter
  | PodcastAttrFromPaymentHref podcast_key text_filter
  | EpisodeItem
  | EpisodeAttr text_key text_filter
  | EpisodeAttrInt int_key int_filter
  | EpisodeGuid text_key text_filter
  | EpisodeAttrFromHref text_key text_filter
  | EpisodeAttrFromPaymentHref text_key text_filter
  | Enclosure

fun WANT_TEXT :: "target \<Rightarrow> bool" where
  "WANT_TEXT (PodcastAttr k f) = True"
| "WANT_TEXT (EpisodeAttr k f) = True"
| "WANT_TEXT (EpisodeAttrInt k f) = True"
| "WANT_TEXT (EpisodeGuid k f) = True"
| "WANT_TEXT t = False"

definition MAPPING :: "(string \<times> target) list" where
  "MAPPING =
    [(''rss'', RSS),
     (''rss/channel'', PodcastItem),
     (''rss/channel/title'', PodcastAttr P_title F_squash_whitespace),
     (''rss/channel/link'', PodcastAttr P_link F_strip),
     (''rss/channel/description'', PodcastAttr P_description F_squash_whitespace),
     (''rss/channel/image/url'', PodcastAttr P_cover_url F_strip),
     (''rss/channel/itunes:image'', PodcastAttrFromHref P_cover_url F_strip),
     (''rss/channel/atom:link'', PodcastAttrFromPaymentHref P_payment_url F_strip),
     (''rss/channel/item'', EpisodeItem),
     (''rss/channel/item/guid'', EpisodeGuid E_guid F_strip),
     (''rss/channel/item/title'', EpisodeAttr E_title F_squash_whitespace),
     (''rss/channel/item/link'', EpisodeAttr E_link F_strip),
     (''rss/channel/item/description'', EpisodeAttr E_description F_squash_whitespace),
     (''rss/channel/item/itunes:duration'', EpisodeAttrInt E_total_time F_parse_duration),
     (''rss/channel/item/pubDate'', EpisodeAttrInt E_published F_parse_pubdate),
     (''rss/channel/item/atom:link'', EpisodeAttrFromPaymentHref E_payment_url F_strip),
     (''rss/channel/item/enclosure'', Enclosure)]"

subsection \<open>PodcastHandler\<close>

text \<open>
  The handler object, with the module-level table as the field \<open>mapping\<close>.
  \<open>episodes\<close> is the list \<^verbatim>\<open>self.episodes\<close>, a list of references into \<open>heap\<close>;
  \<open>next_ref\<close> is the next unused reference.  \<open>data_episodes\<close> is \<open>None\<close> while
  \<^verbatim>\<open>self.data['episodes']\<close> is the same list object as \<^verbatim>\<open>self.episodes\<close> and holds
  the contents of the other list once \<^verbatim>\<open>PodcastItem.end\<close> has rebound the key.
  \<open>text_buf\<close> is \<^verbatim>\<open>self.text\<close>.
\<close>

record handler =
  h_url :: string
  max_episodes :: int
  base :: "string option"
  text_buf :: "string list option"
  episodes :: "nat list"
  heap :: "nat \<Rightarrow> entry"
  next_ref :: nat
  data_title :: string
  data_link :: "string option"
  data_description :: "string option"
  data_cover_url :: "string option"
  data_payment_url :: "string option"
  data_episodes :: "nat list option"
  path_stack :: "string list"
  mapping :: "(string \<times> target) list"

definition PodcastHandler :: "(string \<times> target) list \<Rightarrow> string \<Rightarrow> int \<Rightarrow> handler" where
  "PodcastHandler m u n =
     \<lparr> h_url = u, max_episodes = n, base = None, text_buf = None, episodes = [],
       heap = (\<lambda>a. new_entry), next_ref = 0, data_title = [], data_link = None,
       data_description = None, data_cover_url = None, data_payment_url = None,
       data_episodes = None, path_stack = [], mapping = m \<rparr>"

definition the_data_episodes :: "handler \<Rightarrow> nat list" where
  \<comment> \<open>the contents of \<^verbatim>\<open>self.data['episodes']\<close>\<close>
  "the_data_episodes h = (case data_episodes h of None \<Rightarrow> episodes h | Some l \<Rightarrow> l)"

definition set_base :: "string option \<Rightarrow> handler \<Rightarrow> handler" where
  "set_base b h = h\<lparr>base := b\<rparr>"

fun set_podcast_attr :: "podcast_key \<Rightarrow> string \<Rightarrow> handler \<Rightarrow> handler" where
  "set_podcast_attr P_title v h = h\<lparr>data_title := v\<rparr>"
| "set_podcast_attr P_link v h = h\<lparr>data_link := Some v\<rparr>"
| "set_podcast_attr P_description v h = h\<lparr>data_description := Some v\<rparr>"
| "set_podcast_attr P_cover_url v h = h\<lparr>data_cover_url := Some v\<rparr>"
| "set_podcast_attr P_payment_url v h = h\<lparr>data_payment_url := Some v\<rparr>"

definition update_last :: "(entry \<Rightarrow> entry) \<Rightarrow> handler \<Rightarrow> error + handler" where
  \<comment> \<open>\<^verbatim>\<open>self.episodes[-1][key] = value\<close>: IndexError on the empty list\<close>
  "update_last f h =
     (if episodes h = [] then Inl IndexError
      else Inr (h\<lparr>heap := (heap h)(last (episodes h) := f (heap h (last (episodes h))))\<rparr>))"

fun store_text :: "text_key \<Rightarrow> string \<Rightarrow> entry \<Rightarrow> entry" where
  "store_text E_title v e = e\<lparr>title := Some v\<rparr>"
| "store_text E_link v e = e\<lparr>link := v\<rparr>"
| "store_text E_description v e = e\<lparr>description := v\<rparr>"
| "store_text E_guid v e = e\<lparr>guid := Some v\<rparr>"
| "store_text E_payment_url v e = e\<lparr>payment_url := Some v\<rparr>"

fun store_int :: "int_key \<Rightarrow> int \<Rightarrow> entry \<Rightarrow> entry" where
  "store_int E_total_time v e = e\<lparr>total_time := v\<rparr>"
| "store_int E_published v e = e\<lparr>published := v\<rparr>"

definition set_episode_attr :: "text_key \<Rightarrow> string \<Rightarrow> handler \<Rightarrow> error + handler" where
  "set_episode_attr k v h = update_last (store_text k v) h"

definition set_episode_attr_int :: "int_key \<Rightarrow> int \<Rightarrow> handler \<Rightarrow> error + handler" where
  "set_episode_attr_int k v h = update_last (store_int k v) h"

definition set_guid_is_permalink :: "bool \<Rightarrow> handler \<Rightarrow> error + handler" where
  \<comment> \<open>\<^verbatim>\<open>set_episode_attr('_guid_is_permalink', b)\<close>\<close>
  "set_guid_is_permalink b h = update_last (\<lambda>e. e\<lparr>guid_is_permalink := Some b\<rparr>) h"

definition add_enclosure :: "string \<Rightarrow> int \<Rightarrow> string \<Rightarrow> handler \<Rightarrow> error + handler" where
  \<comment> \<open>IndexError on the empty list, KeyError where the key \<^verbatim>\<open>enclosures\<close> was deleted\<close>
  "add_enclosure u n m h =
     (if episodes h = [] then Inl IndexError
      else let a = last (episodes h); e = heap h a in
        case enclosures e of
          None \<Rightarrow> Inl KeyError
        | Some encs \<Rightarrow>
            Inr (h\<lparr>heap := (heap h)(a := e\<lparr>enclosures :=
                   Some (encs @ [\<lparr>enc_url = u, enc_file_size = n, enc_mime_type = m\<rparr>])\<rparr>)\<rparr>))"

subsection \<open>The Target classes\<close>

type_synonym attrs = "(string \<times> string) list"

definition apply_text_filter :: "env \<Rightarrow> handler \<Rightarrow> text_filter \<Rightarrow> string \<Rightarrow> string" where
  \<comment> \<open>the closure of \<^verbatim>\<open>EpisodeGuid.end\<close> reads \<^verbatim>\<open>handler.base\<close> when it is called\<close>
  "apply_text_filter E h f s =
     (case f of
        F_strip \<Rightarrow> strip s
      | F_squash_whitespace \<Rightarrow> squash_whitespace s
      | F_guid_closure \<Rightarrow>
          (let g = strip s in
           case base h of Some b \<Rightarrow> urljoin E b g | None \<Rightarrow> g))"

definition apply_int_filter :: "env \<Rightarrow> int_filter \<Rightarrow> string \<Rightarrow> int" where
  "apply_int_filter E f s =
     (case f of F_parse_duration \<Rightarrow> parse_duration E s | F_parse_pubdate \<Rightarrow> parse_pubdate E s)"

definition RSS_start :: "attrs \<Rightarrow> handler \<Rightarrow> handler" where
  "RSS_start at h = set_base (map_of at ''xml:base'') h"

text \<open>
  \<^verbatim>\<open>list.sort(key=..., reverse=True)\<close> reverses the list, sorts it stably in ascending
  order of the key and reverses the result; \<^verbatim>\<open>xs[:n]\<close> counts a negative \<open>n\<close> from the
  end of the list.
\<close>

definition sort_reverse :: "('a \<Rightarrow> int) \<Rightarrow> 'a list \<Rightarrow> 'a list" where
  "sort_reverse key xs = rev (sort_key key (rev xs))"

definition slice_to :: "int \<Rightarrow> 'a list \<Rightarrow> 'a list" where
  "slice_to n xs = (if 0 \<le> n then take (nat n) xs else take (length xs - nat (- n)) xs)"

definition PodcastItem_end :: "handler \<Rightarrow> handler" where
  "PodcastItem_end h =
     (let sorted = sort_reverse (\<lambda>a. published (heap h a)) (the_data_episodes h);
          h1 = (case data_episodes h of
                  None \<Rightarrow> h\<lparr>episodes := sorted\<rparr>
                | Some l \<Rightarrow> h\<lparr>data_episodes := Some sorted\<rparr>)
      in if max_episodes h \<noteq> 0
         then h1\<lparr>data_episodes := Some (slice_to (max_episodes h) sorted)\<rparr>
         else h1)"

definition PodcastAttr_end ::
  "env \<Rightarrow> podcast_key \<Rightarrow> text_filter \<Rightarrow> string \<Rightarrow> handler \<Rightarrow> handler" where
  "PodcastAttr_end E k f s h = set_podcast_attr k (apply_text_filter E h f s) h"

definition PodcastAttrFromHref_start ::
  "env \<Rightarrow> podcast_key \<Rightarrow> text_filter \<Rightarrow> attrs \<Rightarrow> handler \<Rightarrow> handler" where
  "PodcastAttrFromHref_start E k f at h =
     (case map_of at ''href'' of
        None \<Rightarrow> h
      | Some v \<Rightarrow> if v \<noteq> [] then set_podcast_attr k (apply_text_filter E h f v) h else h)"

definition PodcastAttrFromPaymentHref_start ::
  "env \<Rightarrow> podcast_key \<Rightarrow> text_filter \<Rightarrow> attrs \<Rightarrow> handler \<Rightarrow> handler" where
  "PodcastAttrFromPaymentHref_start E k f at h =
     (if map_of at ''rel'' = Some ''payment'' then PodcastAttrFromHref_start E k f at h else h)"

definition EpisodeItem_start :: "handler \<Rightarrow> handler" where
  \<comment> \<open>a new dictionary is a new reference\<close>
  "EpisodeItem_start h =
     h\<lparr>heap := (heap h)(next_ref h := new_entry),
       episodes := episodes h @ [next_ref h],
       next_ref := Suc (next_ref h)\<rparr>"

definition is_video_link :: "env \<Rightarrow> string \<Rightarrow> bool" where
  "is_video_link E l = (youtube_is_video_link E l \<or> vimeo_is_video_link E l)"

definition synthetic_enclosure :: "string \<Rightarrow> enclosure" where
  "synthetic_enclosure l = \<lparr>enc_url = l, enc_file_size = - 1, enc_mime_type = ''video/mp4''\<rparr>"

definition finish_entry :: "enclosure \<Rightarrow> entry \<Rightarrow> error + entry" where
  \<comment> \<open>\<^verbatim>\<open>EpisodeItem.end\<close> from \<^verbatim>\<open>entry.update(entry['enclosures'][0])\<close> on\<close>
  "finish_entry enc e =
     (let e1 = e\<lparr>url := Some (enc_url enc), file_size := enc_file_size enc,
                 mime_type := enc_mime_type enc, enclosures := None\<rparr>;
          g = (case guid e1 of None \<Rightarrow> enc_url enc | Some g \<Rightarrow> g);
          e2 = e1\<lparr>guid := Some g\<rparr>;
          e3 = (case title e2 of None \<Rightarrow> e2\<lparr>title := url e2\<rparr> | Some t \<Rightarrow> e2);
          e4 = (if link e3 = [] \<and> guid_is_permalink e3 = Some True
                then e3\<lparr>link := g\<rparr> else e3)
      in case guid_is_permalink e4 of
           None \<Rightarrow> Inl KeyError
         | Some b \<Rightarrow> Inr (e4\<lparr>guid_is_permalink := None\<rparr>))"

definition EpisodeItem_end :: "env \<Rightarrow> handler \<Rightarrow> error + handler" where
  "EpisodeItem_end E h =
     (if episodes h = [] then Inl IndexError
      else let a = last (episodes h); e = heap h a in
        case enclosures e of
          None \<Rightarrow> Inl KeyError
        | Some encs \<Rightarrow>
            if encs = [] \<and> \<not> is_video_link E (link e)
            then Inr (h\<lparr>episodes := butlast (episodes h)\<rparr>)
            else
              (let encs' = (if encs = [] then encs @ [synthetic_enclosure (link e)] else encs)
               in case finish_entry (hd encs') e of
                    Inl x \<Rightarrow> Inl x
                  | Inr e' \<Rightarrow> Inr (h\<lparr>heap := (heap h)(a := e')\<rparr>)))"

definition EpisodeAttr_end ::
  "env \<Rightarrow> text_key \<Rightarrow> text_filter \<Rightarrow> string \<Rightarrow> handler \<Rightarrow> error + handler" where
  "EpisodeAttr_end E k f s h = set_episode_attr k (apply_text_filter E h f s) h"

definition EpisodeAttrInt_end ::
  "env \<Rightarrow> int_key \<Rightarrow> int_filter \<Rightarrow> string \<Rightarrow> handler \<Rightarrow> error + handler" where
  "EpisodeAttrInt_end E k f s h = set_episode_attr_int k (apply_int_filter E f s) h"

definition EpisodeGuid_start :: "attrs \<Rightarrow> handler \<Rightarrow> error + handler" where
  "EpisodeGuid_start at h =
     (if lower (case map_of at ''isPermaLink'' of None \<Rightarrow> ''true'' | Some v \<Rightarrow> v) = ''true''
      then set_guid_is_permalink True h
      else set_guid_is_permalink False h)"

definition EpisodeGuid_end ::
  "env \<Rightarrow> string \<Rightarrow> text_key \<Rightarrow> string \<Rightarrow> handler \<Rightarrow> error + handler" where
  \<comment> \<open>\<open>path\<close> is the table entry that holds \<^verbatim>\<open>self\<close>; \<^verbatim>\<open>self.filter_func = filter_func\<close>
      changes that entry, and \<^verbatim>\<open>EpisodeAttr.end\<close> then calls the new filter\<close>
  "EpisodeGuid_end E path k s h =
     (let h1 = h\<lparr>mapping := AList.update path (EpisodeGuid k F_guid_closure) (mapping h)\<rparr>
      in EpisodeAttr_end E k F_guid_closure s h1)"

definition EpisodeAttrFromHref_start ::
  "env \<Rightarrow> text_key \<Rightarrow> text_filter \<Rightarrow> attrs \<Rightarrow> handler \<Rightarrow> error + handler" where
  "EpisodeAttrFromHref_start E k f at h =
     (case map_of at ''href'' of
        None \<Rightarrow> Inr h
      | Some v \<Rightarrow> if v \<noteq> [] then set_episode_attr k (apply_text_filter E h f v) h else Inr h)"

definition EpisodeAttrFromPaymentHref_start ::
  "env \<Rightarrow> text_key \<Rightarrow> text_filter \<Rightarrow> attrs \<Rightarrow> handler \<Rightarrow> error + handler" where
  "EpisodeAttrFromPaymentHref_start E k f at h =
     (if map_of at ''rel'' = Some ''payment'' then EpisodeAttrFromHref_start E k f at h
      else Inr h)"

definition Enclosure_start :: "env \<Rightarrow> attrs \<Rightarrow> handler \<Rightarrow> error + handler" where
  "Enclosure_start E at h =
     (case map_of at ''url'' of
        None \<Rightarrow> Inr h
      | Some u \<Rightarrow>
          add_enclosure (parse_url E (urljoin E (h_url h) u))
            (parse_length E (map_of at ''length'')) (parse_type (map_of at ''type'')) h)"

text \<open>Method dispatch on the class of the target: \<^verbatim>\<open>target.start\<close> and \<^verbatim>\<open>target.end\<close>.\<close>

fun target_start :: "env \<Rightarrow> target \<Rightarrow> attrs \<Rightarrow> handler \<Rightarrow> error + handler" where
  "target_start E RSS at h = Inr (RSS_start at h)"
| "target_start E (PodcastAttrFromHref k f) at h = Inr (PodcastAttrFromHref_start E k f at h)"
| "target_start E (PodcastAttrFromPaymentHref k f) at h =
     Inr (PodcastAttrFromPaymentHref_start E k f at h)"
| "target_start E EpisodeItem at h = Inr (EpisodeItem_start h)"
| "target_start E (EpisodeGuid k f) at h = EpisodeGuid_start at h"
| "target_start E (EpisodeAttrFromHref k f) at h = EpisodeAttrFromHref_start E k f at h"
| "target_start E (EpisodeAttrFromPaymentHref k f) at h =
     EpisodeAttrFromPaymentHref_start E k f at h"
| "target_start E Enclosure at h = Enclosure_start E at h"
| "target_start E t at h = Inr h"

fun target_end :: "env \<Rightarrow> string \<Rightarrow> target \<Rightarrow> string \<Rightarrow> handler \<Rightarrow> error + handler" where
  "target_end E path PodcastItem s h = Inr (PodcastItem_end h)"
| "target_end E path (PodcastAttr k f) s h = Inr (PodcastAttr_end E k f s h)"
| "target_end E path EpisodeItem s h = EpisodeItem_end E h"
| "target_end E path (EpisodeAttr k f) s h = EpisodeAttr_end E k f s h"
| "target_end E path (EpisodeAttrInt k f) s h = EpisodeAttrInt_end E k f s h"
| "target_end E path (EpisodeGuid k f) s h = EpisodeGuid_end E path k s h"
| "target_end E path t s h = Inr h"

subsection \<open>The SAX callbacks and \<^verbatim>\<open>parse\<close>\<close>

definition startElement :: "env \<Rightarrow> string \<Rightarrow> attrs \<Rightarrow> handler \<Rightarrow> error + handler" where
  "startElement E name at h =
     (let h1 = h\<lparr>path_stack := path_stack h @ [name]\<rparr> in
      case map_of (mapping h1) (join ''/'' (path_stack h1)) of
        None \<Rightarrow> Inr h1
      | Some t \<Rightarrow>
          (case target_start E t at h1 of
             Inl x \<Rightarrow> Inl x
           | Inr h2 \<Rightarrow> Inr (if WANT_TEXT t then h2\<lparr>text_buf := Some []\<rparr> else h2)))"

definition characters :: "string \<Rightarrow> handler \<Rightarrow> handler" where
  "characters chars h =
     (case text_buf h of None \<Rightarrow> h | Some l \<Rightarrow> h\<lparr>text_buf := Some (l @ [chars])\<rparr>)"

definition pop_path :: "handler \<Rightarrow> error + handler" where
  \<comment> \<open>\<^verbatim>\<open>self.path_stack.pop()\<close>\<close>
  "pop_path h =
     (if path_stack h = [] then Inl IndexError
      else Inr (h\<lparr>path_stack := butlast (path_stack h)\<rparr>))"

definition endElement :: "env \<Rightarrow> string \<Rightarrow> handler \<Rightarrow> error + handler" where
  "endElement E name h =
     (let path = join ''/'' (path_stack h) in
      case map_of (mapping h) path of
        None \<Rightarrow> pop_path h
      | Some t \<Rightarrow>
          (case target_end E path t
                  (case text_buf h of None \<Rightarrow> [] | Some l \<Rightarrow> concat l) h of
             Inl x \<Rightarrow> Inl x
           | Inr h2 \<Rightarrow> pop_path (h2\<lparr>text_buf := None\<rparr>)))"

datatype event = StartElement string attrs | Characters string | EndElement string

fun step :: "env \<Rightarrow> event \<Rightarrow> handler \<Rightarrow> error + handler" where
  "step E (StartElement name at) h = startElement E name at h"
| "step E (Characters chars) h = Inr (characters chars h)"
| "step E (EndElement name) h = endElement E name h"

fun run :: "env \<Rightarrow> event list \<Rightarrow> handler \<Rightarrow> error + handler" where
  "run E [] h = Inr h"
| "run E (ev # evs) h = (case step E ev h of Inl x \<Rightarrow> Inl x | Inr h' \<Rightarrow> run E evs h')"

text \<open>The dictionary \<^verbatim>\<open>handler.data\<close> that \<^verbatim>\<open>parse\<close> returns, with the episodes read from the store.\<close>

record document =
  doc_title :: string
  doc_link :: "string option"
  doc_description :: "string option"
  doc_cover_url :: "string option"
  doc_payment_url :: "string option"
  doc_episodes :: "entry list"

definition data :: "handler \<Rightarrow> document" where
  "data h = \<lparr> doc_title = data_title h, doc_link = data_link h,
     doc_description = data_description h, doc_cover_url = data_cover_url h,
     doc_payment_url = data_payment_url h,
     doc_episodes = map (heap h) (the_data_episodes h) \<rparr>"

definition parse :: "env \<Rightarrow> string \<Rightarrow> event list \<Rightarrow> int \<Rightarrow> error + document" where
  \<comment> \<open>\<open>events\<close> is what \<^verbatim>\<open>sax.parse\<close> delivers for the stream\<close>
  "parse E u events n =
     (case run E events (PodcastHandler MAPPING u n) of
        Inl x \<Rightarrow> Inl x
      | Inr h \<Rightarrow> Inr (data h))"

subsection \<open>A concrete environment\<close>

text \<open>
  One instance of the collaborators, for evaluating the parser on concrete feeds:
  \<open>long_decimal\<close> reads an optional sign and decimal digits, as \<^verbatim>\<open>long\<close> does on such
  text; \<open>urljoin_relative\<close> replaces the last path segment of the base by the reference,
  as \<^verbatim>\<open>urlparse.urljoin\<close> does for an http base and a reference that is a plain
  relative path segment, and returns a reference that starts with \<^verbatim>\<open>http://\<close> as it is; the two classifiers recognise watch-page prefixes.
\<close>

definition digit_val :: "char \<Rightarrow> nat option" where
  "digit_val c = (let n = (of_char c :: nat) in
                  if 48 \<le> n \<and> n \<le> 57 then Some (n - 48) else None)"

fun digits_val :: "nat \<Rightarrow> string \<Rightarrow> nat option" where
  "digits_val acc [] = Some acc"
| "digits_val acc (c # cs) =
     (case digit_val c of None \<Rightarrow> None | Some d \<Rightarrow> digits_val (10 * acc + d) cs)"

definition long_decimal :: "string \<Rightarrow> int option" where
  "long_decimal s =
     (case s of
        [] \<Rightarrow> None
      | c # cs \<Rightarrow>
          if c = CHR ''-'' then (if cs = [] then None else map_option (\<lambda>n. - int n) (digits_val 0 cs))
          else if c = CHR ''+'' then (if cs = [] then None else map_option int (digits_val 0 cs))
          else map_option int (digits_val 0 s))"

definition urljoin_relative :: "string \<Rightarrow> string \<Rightarrow> string" where
  "urljoin_relative b r =
     (if b = [] then r else if r = [] then b
      else if take 7 r = ''http://'' then r
      else rev (dropWhile (\<lambda>c. c \<noteq> CHR ''/'') (rev b)) @ r)"

definition sample_env :: env where
  "sample_env = \<lparr> urljoin = urljoin_relative, normalize_feed_url = (\<lambda>s. s),
     parse_time = (\<lambda>s. case long_decimal s of None \<Rightarrow> 0 | Some n \<Rightarrow> n),
     parse_date = (\<lambda>s. case long_decimal s of None \<Rightarrow> 0 | Some n \<Rightarrow> n),
     youtube_is_video_link = (\<lambda>l. take 31 l = ''http://www.youtube.com/watch?v=''),
     vimeo_is_video_link = (\<lambda>l. take 17 l = ''http://vimeo.com/''),
     long = long_decimal \<rparr>"

subsection \<open>Predicates used in the statements\<close>

abbreviation item_path :: string where "item_path \<equiv> ''rss/channel/item''"

abbreviation channel_path :: string where "channel_path \<equiv> ''rss/channel''"

abbreviation guid_path :: string where "guid_path \<equiv> ''rss/channel/item/guid''"

definition current_path :: "handler \<Rightarrow> string" where
  \<comment> \<open>\<^verbatim>\<open>'/'.join(self.path_stack)\<close>\<close>
  "current_path h = join ''/'' (path_stack h)"

definition key_of :: "handler \<Rightarrow> nat \<Rightarrow> int" where
  \<comment> \<open>the sort key of \<^verbatim>\<open>PodcastItem.end\<close>\<close>
  "key_of h a = published (heap h a)"

definition is_channel_close :: "event \<Rightarrow> handler \<Rightarrow> bool" where
  "is_channel_close ev h =
     ((case ev of EndElement name \<Rightarrow> True | _ \<Rightarrow> False)
      \<and> map_of (mapping h) (current_path h) = Some PodcastItem)"

definition mime_ok :: "string \<Rightarrow> bool" where
  "mime_ok s = (s \<noteq> [] \<and> CHR ''/'' \<in> set s)"

definition MAPPING_guid :: "(string \<times> target) list" where
  \<comment> \<open>the table after \<^verbatim>\<open>EpisodeGuid.end\<close> has replaced the filter of its own object\<close>
  "MAPPING_guid = AList.update guid_path (EpisodeGuid E_guid F_guid_closure) MAPPING"

definition mapping_ok :: "handler \<Rightarrow> bool" where
  "mapping_ok h = (mapping h = MAPPING \<or> mapping h = MAPPING_guid)"

subsection \<open>Concrete handlers and feeds\<close>

definition entry_at :: "int \<Rightarrow> entry" where
  \<comment> \<open>a finished episode published at the given time\<close>
  "entry_at t = new_entry\<lparr>title := Some ''Ep'', url := Some ''http://x/e.mp3'',
     guid := Some ''http://x/e.mp3'', published := t, enclosures := None,
     guid_is_permalink := None\<rparr>"

definition channel_handler :: "int \<Rightarrow> handler" where
  \<comment> \<open>the handler just before \<^verbatim>\<open></channel>\<close>, with episodes published at 5, 7 and 7\<close>
  "channel_handler n =
     (PodcastHandler MAPPING ''http://x/feed.xml'' n)
       \<lparr>episodes := [0, 1, 2],
        heap := (\<lambda>a. if a = 0 then entry_at 5 else if a = 1 then entry_at 7
                     else if a = 2 then entry_at 7 else new_entry),
        next_ref := 3,
        path_stack := [''rss'', ''channel'']\<rparr>"

definition item_handler :: "enclosure list \<Rightarrow> string \<Rightarrow> string option \<Rightarrow> handler" where
  \<comment> \<open>the handler inside an \<^verbatim>\<open><item>\<close> whose episode has collected the given enclosures,
      link and guid; the feed declared \<^verbatim>\<open>xml:base="http://example.org/feed/"\<close>\<close>
  "item_handler encs l g =
     (PodcastHandler MAPPING ''http://x/feed.xml'' 0)
       \<lparr>base := Some ''http://example.org/feed/'',
        episodes := [0],
        heap := (\<lambda>a. if a = 0 then new_entry\<lparr>enclosures := Some encs, link := l, guid := g\<rparr>
                     else new_entry),
        next_ref := 1,
        path_stack := [''rss'', ''channel'', ''item'']\<rparr>"

definition item_events :: "attrs \<Rightarrow> string \<Rightarrow> string \<Rightarrow> string \<Rightarrow> event list" where
  \<comment> \<open>an \<^verbatim>\<open><item>\<close> with an enclosure (when attributes are given), title, link and pubDate\<close>
  "item_events enc t l pd =
     [StartElement ''item'' []]
     @ (if enc = [] then [] else [StartElement ''enclosure'' enc, EndElement ''enclosure''])
     @ [StartElement ''title'' [], Characters t, EndElement ''title'',
        StartElement ''link'' [], Characters l, EndElement ''link'',
        StartElement ''pubDate'' [], Characters pd, EndElement ''pubDate'',
        EndElement ''item'']"

definition feed_events :: "attrs \<Rightarrow> event list \<Rightarrow> event list" where
  "feed_events rss_attrs items =
     [StartElement ''rss'' rss_attrs, StartElement ''channel'' []]
     @ items @ [EndElement ''channel'', EndElement ''rss'']"

definition episodes_of :: "error + document \<Rightarrow> entry list" where
  "episodes_of r = (case r of Inl x \<Rightarrow> [] | Inr d \<Rightarrow> doc_episodes d)"

definition guid_handler :: "string option \<Rightarrow> string \<Rightarrow> handler" where
  \<comment> \<open>the handler just before \<^verbatim>\<open></guid>\<close>, with the given base and accumulated text\<close>
  "guid_handler b s =
     (item_handler [] [] None)
       \<lparr>base := b, text_buf := Some [s],
        path_stack := [''rss'', ''channel'', ''item'', ''guid'']\<rparr>"

definition mp3_attrs :: attrs where
  "mp3_attrs = [(''url'', ''e.mp3''), (''length'', ''100''), (''type'', ''audio/mpeg'')]"

definition mp3_enclosure :: enclosure where
  "mp3_enclosure = \<lparr>enc_url = ''http://x/e.mp3'', enc_file_size = 100,
     enc_mime_type = ''audio/mpeg''\<rparr>"


definition guid_after :: "error + handler \<Rightarrow> nat \<Rightarrow> string option" where
  \<comment> \<open>the guid of the episode at a reference after a callback, \<open>None\<close> if it raised\<close>
  "guid_after r a = (case r of Inl x \<Rightarrow> None | Inr h \<Rightarrow> guid (heap h a))"

definition buffered_text :: "handler \<Rightarrow> string" where
  \<comment> \<open>the text \<^verbatim>\<open>endElement\<close> hands to the target\<close>
  "buffered_text h = (case text_buf h of None \<Rightarrow> [] | Some l \<Rightarrow> concat l)"



definition cell_inv :: "(int \<Rightarrow> string \<Rightarrow> bool) \<Rightarrow> entry \<Rightarrow> bool" where
  \<comment> \<open>the size and type of the episode and of every collected enclosure satisfy \<open>P\<close>\<close>
  "cell_inv P e =
     (P (file_size e) (mime_type e)
      \<and> (\<forall>encs. enclosures e = Some encs \<longrightarrow>
             list_all (\<lambda>c. P (enc_file_size c) (enc_mime_type c)) encs))"

definition heap_inv :: "(int \<Rightarrow> string \<Rightarrow> bool) \<Rightarrow> handler \<Rightarrow> bool" where
  "heap_inv P h = (\<forall>a. cell_inv P (heap h a))"

definition attrs_inv :: "env \<Rightarrow> (int \<Rightarrow> string \<Rightarrow> bool) \<Rightarrow> event \<Rightarrow> bool" where
  \<comment> \<open>what an element's \<open>length\<close> and \<open>type\<close> attributes parse to satisfies \<open>P\<close>\<close>
  "attrs_inv E P ev =
     (case ev of
        StartElement name at \<Rightarrow>
          P (parse_length E (map_of at ''length'')) (parse_type (map_of at ''type''))
      | _ \<Rightarrow> True)"

definition base_inv :: "(int \<Rightarrow> string \<Rightarrow> bool) \<Rightarrow> bool" where
  \<comment> \<open>the defaults of a new episode and of a synthetic enclosure satisfy \<open>P\<close>\<close>
  "base_inv P = (P (- 1) ''application/octet-stream'' \<and> P (- 1) ''video/mp4'')"

definition neg_attrs :: attrs where
  "neg_attrs = [(''url'', ''e.mp3''), (''length'', ''-5''), (''type'', ''audio/mpeg'')]"

definition one_item_feed :: "attrs \<Rightarrow> string \<Rightarrow> event list" where
  \<comment> \<open>a feed of one item with the given enclosure attributes and link\<close>
  "one_item_feed enc l = feed_events [] (item_events enc ''Ep1'' l ''5'')"

definition enclosure_length :: "env \<Rightarrow> event \<Rightarrow> handler \<Rightarrow> int option" where
  \<comment> \<open>what \<^verbatim>\<open>long\<close> reads from the \<open>length\<close> attribute, when the event is the start of
      an element bound to \<open>Enclosure\<close> that has a \<open>url\<close>; \<open>None\<close> for every other event\<close>
  "enclosure_length E ev h =
     (case ev of
        StartElement name at \<Rightarrow>
          if map_of (mapping h) (join ''/'' (path_stack h @ [name])) = Some Enclosure
             \<and> map_of at ''url'' \<noteq> None
          then (case map_of at ''length'' of None \<Rightarrow> None | Some s \<Rightarrow> long E (strip s))
          else None
      | _ \<Rightarrow> None)"

fun enclosure_declared :: "env \<Rightarrow> event list \<Rightarrow> handler \<Rightarrow> int \<Rightarrow> bool" where
  \<comment> \<open>the run has an enclosure element whose declared length reads as \<open>n\<close>\<close>
  "enclosure_declared E [] h n = False"
| "enclosure_declared E (ev # evs) h n =
     (enclosure_length E ev h = Some n
      \<or> (case step E ev h of Inl x \<Rightarrow> False | Inr h' \<Rightarrow> enclosure_declared E evs h' n))"

definition guid_length_feed :: "event list" where
  \<comment> \<open>a feed of one item whose \<open>guid\<close> element carries \<^verbatim>\<open>length="7"\<close> and whose enclosure
      declares \<^verbatim>\<open>length="-5"\<close>\<close>
  "guid_length_feed =
     feed_events []
       [StartElement ''item'' [], StartElement ''guid'' [(''length'', ''7'')],
        Characters ''g'', EndElement ''guid'',
        StartElement ''enclosure'' neg_attrs, EndElement ''enclosure'', EndElement ''item'']"

definition item_open :: "string list \<Rightarrow> bool" where
  \<comment> \<open>an \<^verbatim>\<open>rss/channel/item\<close> element is on the path stack\<close>
  "item_open ps = (\<exists>n. 0 < n \<and> n \<le> length ps \<and> join ''/'' (take n ps) = item_path)"

definition refs :: "handler \<Rightarrow> nat set" where
  "refs h = set (episodes h) \<union> set (the_data_episodes h)"

definition closed :: "handler \<Rightarrow> nat \<Rightarrow> bool" where
  \<comment> \<open>the episode went through item close: its key \<^verbatim>\<open>enclosures\<close> is deleted\<close>
  "closed h a = (enclosures (heap h a) = None)"

definition handler_wf :: "handler \<Rightarrow> bool" where
  \<comment> \<open>the shape of the handler during a parse: at most the last episode is still open,
      and only inside an item\<close>
  "handler_wf h =
     (mapping_ok h \<and> distinct (episodes h)
      \<and> (\<forall>a \<in> refs h. a < next_ref h)
      \<and> (\<forall>a \<in> set (episodes h). \<not> closed h a \<longrightarrow>
            item_open (path_stack h) \<and> a = last (episodes h))
      \<and> (\<forall>l. data_episodes h = Some l \<longrightarrow> (\<forall>a \<in> set l. closed h a)))"

definition same_shape :: "handler \<Rightarrow> handler \<Rightarrow> bool" where
  \<comment> \<open>a callback that changes neither the lists nor which episodes are closed\<close>
  "same_shape h h' =
     (episodes h' = episodes h \<and> data_episodes h' = data_episodes h
      \<and> next_ref h' = next_ref h \<and> path_stack h' = path_stack h
      \<and> (\<forall>a. closed h' a = closed h a))"

definition close_keeps :: "env \<Rightarrow> handler \<Rightarrow> bool" where
  \<comment> \<open>the test of \<^verbatim>\<open>EpisodeItem.end\<close> on the last episode: an enclosure or a video link\<close>
  "close_keeps E h =
     (episodes h \<noteq> []
      \<and> (case enclosures (heap h (last (episodes h))) of
            None \<Rightarrow> False
          | Some encs \<Rightarrow> encs \<noteq> [] \<or> is_video_link E (link (heap h (last (episodes h))))))"

definition is_item_close :: "event \<Rightarrow> handler \<Rightarrow> bool" where
  "is_item_close ev h =
     ((case ev of EndElement name \<Rightarrow> True | _ \<Rightarrow> False)
      \<and> map_of (mapping h) (current_path h) = Some EpisodeItem)"

fun kept_at_close :: "env \<Rightarrow> event list \<Rightarrow> handler \<Rightarrow> nat \<Rightarrow> bool" where
  \<comment> \<open>the run has an item-close event for the episode \<open>a\<close> at which the test held\<close>
  "kept_at_close E [] h a = False"
| "kept_at_close E (ev # evs) h a =
     ((is_item_close ev h \<and> close_keeps E h \<and> last (episodes h) = a)
      \<or> (case step E ev h of Inl x \<Rightarrow> False | Inr h' \<Rightarrow> kept_at_close E evs h' a))"

definition closed_fields :: "entry \<Rightarrow> bool" where
  \<comment> \<open>an episode that went through item close has a guid, a url and a title\<close>
  "closed_fields e = (enclosures e = None \<longrightarrow> guid e \<noteq> None \<and> url e \<noteq> None \<and> title e \<noteq> None)"

definition empty_guid_feed :: "event list" where
  \<comment> \<open>a feed of one item with an empty \<^verbatim>\<open><guid></guid>\<close> and an enclosure\<close>
  "empty_guid_feed =
     feed_events []
       [StartElement ''item'' [], StartElement ''guid'' [], EndElement ''guid'',
        StartElement ''enclosure'' mp3_attrs, EndElement ''enclosure'', EndElement ''item'']"

definition final_handler :: "error + handler \<Rightarrow> handler" where
  \<comment> \<open>the handler after a run, the initial one if the run raised\<close>
  "final_handler r = (case r of Inl x \<Rightarrow> PodcastHandler MAPPING [] 0 | Inr h \<Rightarrow> h)"

definition two_item_feed :: "event list" where
  \<comment> \<open>two items with an enclosure each, published at 5 and at 7\<close>
  "two_item_feed =
     feed_events []
       (item_events mp3_attrs ''A'' ''http://x/a'' ''5''
        @ item_events mp3_attrs ''B'' ''http://x/b'' ''7'')"

definition final_refs :: "error + handler \<Rightarrow> nat list" where
  \<comment> \<open>the references in \<^verbatim>\<open>data['episodes']\<close> after a run\<close>
  "final_refs r = (case r of Inl x \<Rightarrow> [] | Inr h \<Rightarrow> the_data_episodes h)"

definition title_handler :: "string list \<Rightarrow> string \<Rightarrow> handler" where
  \<comment> \<open>the handler inside an item, at the given path, with the given accumulated text\<close>
  "title_handler ps s = (item_handler [] [] None)\<lparr>text_buf := Some [s], path_stack := ps\<rparr>"

fun channel_closes :: "env \<Rightarrow> event list \<Rightarrow> handler \<Rightarrow> nat" where
  \<comment> \<open>the number of channel-close events of the run\<close>
  "channel_closes E [] h = 0"
| "channel_closes E (ev # evs) h =
     (if is_channel_close ev h then 1 else 0)
     + (case step E ev h of Inl x \<Rightarrow> 0 | Inr h' \<Rightarrow> channel_closes E evs h')"

fun qualifying :: "env \<Rightarrow> event list \<Rightarrow> handler \<Rightarrow> nat list" where
  \<comment> \<open>the episodes that pass the test of \<^verbatim>\<open>EpisodeItem.end\<close> at their item-close event
      before the first channel-close event of the run, in document order\<close>
  "qualifying E [] h = []"
| "qualifying E (ev # evs) h =
     (if is_channel_close ev h then []
      else (if is_item_close ev h \<and> close_keeps E h then [last (episodes h)] else [])
           @ (case step E ev h of Inl x \<Rightarrow> [] | Inr h' \<Rightarrow> qualifying E evs h'))"

fun at_first_close :: "env \<Rightarrow> event list \<Rightarrow> handler \<Rightarrow> handler option" where
  \<comment> \<open>the handler at the first channel-close event of the run\<close>
  "at_first_close E [] h = None"
| "at_first_close E (ev # evs) h =
     (if is_channel_close ev h then Some h
      else case step E ev h of Inl x \<Rightarrow> None | Inr h' \<Rightarrow> at_first_close E evs h')"

definition two_channel_feed :: "event list" where
  \<comment> \<open>three items with an enclosure each, published at 5, 9 and 7, in a first
      \<^verbatim>\<open><channel>\<close>, followed by a second, empty \<^verbatim>\<open><channel>\<close>\<close>
  "two_channel_feed =
     [StartElement ''rss'' [], StartElement ''channel'' []]
     @ item_events mp3_attrs ''A'' ''http://x/a'' ''5''
     @ item_events mp3_attrs ''B'' ''http://x/b'' ''9''
     @ item_events mp3_attrs ''C'' ''http://x/c'' ''7''
     @ [EndElement ''channel'', StartElement ''channel'' [], EndElement ''channel'',
        EndElement ''rss'']"

section \<open>Properties\<close>

subsection \<open>Sorting and slicing\<close>




lemma sort_reverse_length: "length (sort_reverse key xs) = length xs"
  unfolding sort_reverse_def by simp



subsection \<open>Channel close\<close>

lemma key_of_eq: "(\<lambda>a. published (heap h a)) = key_of h"
  by (rule ext) (simp add: key_of_def)

lemma the_data_episodes_PodcastItem_end:
  "the_data_episodes (PodcastItem_end h) =
     (if max_episodes h \<noteq> 0
      then slice_to (max_episodes h) (sort_reverse (key_of h) (the_data_episodes h))
      else sort_reverse (key_of h) (the_data_episodes h))"
  by (simp add: PodcastItem_end_def the_data_episodes_def Let_def key_of_eq
      split: option.splits)

lemma heap_PodcastItem_end: "heap (PodcastItem_end h) = heap h"
  by (simp add: PodcastItem_end_def Let_def split: option.splits)

lemma endElement_PodcastItem:
  assumes "map_of (mapping h) (current_path h) = Some PodcastItem"
      and "path_stack h \<noteq> []"
  shows "endElement E name h =
           Inr ((PodcastItem_end h)\<lparr>text_buf := None, path_stack := butlast (path_stack h)\<rparr>)"
  using assms
  by (simp add: endElement_def pop_path_def PodcastItem_end_def Let_def current_path_def
      split: option.splits)

lemma the_data_episodes_frame:
  "the_data_episodes (h\<lparr>text_buf := t\<rparr>) = the_data_episodes h"
  "the_data_episodes (h\<lparr>path_stack := p\<rparr>) = the_data_episodes h"
  "the_data_episodes (h\<lparr>heap := hp\<rparr>) = the_data_episodes h"
  "the_data_episodes (h\<lparr>mapping := m\<rparr>) = the_data_episodes h"
  "the_data_episodes (h\<lparr>base := b\<rparr>) = the_data_episodes h"
  "the_data_episodes (h\<lparr>next_ref := n\<rparr>) = the_data_episodes h"
  by (simp_all add: the_data_episodes_def split: option.splits)

lemma set_podcast_attr_proj:
  "episodes (set_podcast_attr k v h) = episodes h"
  "data_episodes (set_podcast_attr k v h) = data_episodes h"
  "heap (set_podcast_attr k v h) = heap h"
  "next_ref (set_podcast_attr k v h) = next_ref h"
  "path_stack (set_podcast_attr k v h) = path_stack h"
  "mapping (set_podcast_attr k v h) = mapping h"
  "max_episodes (set_podcast_attr k v h) = max_episodes h"
  "base (set_podcast_attr k v h) = base h"
  "text_buf (set_podcast_attr k v h) = text_buf h"
  "h_url (set_podcast_attr k v h) = h_url h"
  by (cases k; simp)+

lemma update_last_proj:
  assumes "update_last f h = Inr h'"
  shows "episodes h' = episodes h" "data_episodes h' = data_episodes h"
    "next_ref h' = next_ref h" "path_stack h' = path_stack h" "mapping h' = mapping h"
    "max_episodes h' = max_episodes h" "base h' = base h" "text_buf h' = text_buf h"
    "h_url h' = h_url h" "episodes h \<noteq> []"
    "heap h' = (heap h)(last (episodes h) := f (heap h (last (episodes h))))"
  using assms by (auto simp: update_last_def split: if_splits)

lemma add_enclosure_update_last:
  "add_enclosure u n m h = Inr h' \<Longrightarrow>
     update_last (\<lambda>e. e\<lparr>enclosures := Some (the (enclosures e) @
        [\<lparr>enc_url = u, enc_file_size = n, enc_mime_type = m\<rparr>])\<rparr>) h = Inr h'
     \<and> enclosures (heap h (last (episodes h))) \<noteq> None"
  by (auto simp: add_enclosure_def update_last_def Let_def split: if_splits option.splits)








lemma slice_to_neg: "0 < k \<Longrightarrow> slice_to (- int k) xs = take (length xs - k) xs"
  by (simp add: slice_to_def)

lemma channel_handler_close:
  "map_of (mapping (channel_handler n)) (current_path (channel_handler n)) = Some PodcastItem"
  "path_stack (channel_handler n) \<noteq> []"
  "max_episodes (channel_handler n) = n"
  "the_data_episodes (channel_handler n) = [0, 1, 2]"
  by (simp_all add: channel_handler_def PodcastHandler_def MAPPING_def current_path_def
      the_data_episodes_def)

lemma channel_handler_sorted:
  "sort_reverse (key_of (channel_handler n)) [0, 1, 2] = [1, 2, 0]"
  by (simp add: sort_reverse_def key_of_def channel_handler_def entry_at_def new_entry_def)



subsection \<open>Dispatch\<close>

lemma startElement_unbound:
  "map_of (mapping h) (join ''/'' (path_stack h @ [name])) = None \<Longrightarrow>
     startElement E name at h = Inr (h\<lparr>path_stack := path_stack h @ [name]\<rparr>)"
  by (simp add: startElement_def Let_def)

lemma endElement_unbound:
  "map_of (mapping h) (current_path h) = None \<Longrightarrow> path_stack h \<noteq> [] \<Longrightarrow>
     endElement E name h = Inr (h\<lparr>path_stack := butlast (path_stack h)\<rparr>)"
  by (simp add: endElement_def pop_path_def Let_def current_path_def)

subsection \<open>Enclosures\<close>




lemma EpisodeItem_end_first_enclosure:
  assumes "episodes h \<noteq> []"
      and "enclosures (heap h (last (episodes h))) = Some (enc # rest)"
      and "guid_is_permalink (heap h (last (episodes h))) \<noteq> None"
  shows "\<exists>h'. EpisodeItem_end E h = Inr h' \<and> episodes h' = episodes h
     \<and> url (heap h' (last (episodes h))) = Some (enc_url enc)
     \<and> file_size (heap h' (last (episodes h))) = enc_file_size enc
     \<and> mime_type (heap h' (last (episodes h))) = enc_mime_type enc
     \<and> enclosures (heap h' (last (episodes h))) = None"
  using assms
  by (auto simp: EpisodeItem_end_def finish_entry_def Let_def split: option.splits)





subsection \<open>The guid element\<close>

lemma endElement_EpisodeGuid:
  assumes "map_of (mapping h) (current_path h) = Some (EpisodeGuid E_guid f)"
      and "episodes h \<noteq> []" and "path_stack h \<noteq> []"
  shows "endElement E name h =
     Inr (h\<lparr>mapping := AList.update (current_path h) (EpisodeGuid E_guid F_guid_closure) (mapping h),
            heap := (heap h)(last (episodes h) := (heap h (last (episodes h)))
              \<lparr>guid := Some (case base h of Some b \<Rightarrow> urljoin E b (strip (buffered_text h))
                                | None \<Rightarrow> strip (buffered_text h))\<rparr>),
            text_buf := None, path_stack := butlast (path_stack h)\<rparr>)"
  using assms
  by (cases "text_buf h"; cases "base h")
     (simp_all add: endElement_def current_path_def EpisodeGuid_end_def EpisodeAttr_end_def
      set_episode_attr_def update_last_def apply_text_filter_def pop_path_def Let_def
      buffered_text_def)

lemma guid_handler_facts:
  "map_of (mapping (guid_handler b s)) (current_path (guid_handler b s))
     = Some (EpisodeGuid E_guid F_strip)"
  "episodes (guid_handler b s) \<noteq> []" "path_stack (guid_handler b s) \<noteq> []"
  "last (episodes (guid_handler b s)) = 0" "base (guid_handler b s) = b"
  "buffered_text (guid_handler b s) = s"
  by (simp_all add: guid_handler_def item_handler_def PodcastHandler_def MAPPING_def
      current_path_def buffered_text_def)

lemma sample_strip_ep1: "strip '' ep1'' = ''ep1''" "strip '' ep1 '' = ''ep1''"
  by (simp_all add: strip_def is_space_def)

lemma sample_urljoin_ep1:
  "urljoin sample_env ''http://example.org/feed/'' ''ep1'' = ''http://example.org/feed/ep1''"
  "urljoin sample_env ''http://example.org/feed/'' '' ep1'' = ''http://example.org/feed/ ep1''"
  by (simp_all add: sample_env_def urljoin_relative_def)

text \<open>
  C7, as the code has it.  At the exit of a \<open>guid\<close> element the accumulated text is
  trimmed first; when the base is set the stored guid is the URL-join of the base and the
  trimmed text, and nothing is trimmed after the join; when the base is unset the stored
  guid is the trimmed text.
\<close>

theorem C7_guid_trimmed_then_joined:
  assumes "map_of (mapping h) (current_path h) = Some (EpisodeGuid E_guid f)"
      and "episodes h \<noteq> []" and "path_stack h \<noteq> []"
  shows "\<exists>h'. endElement E name h = Inr h'
     \<and> (\<forall>b. base h = Some b \<longrightarrow>
           guid (heap h' (last (episodes h))) = Some (urljoin E b (strip (buffered_text h))))
     \<and> (base h = None \<longrightarrow>
           guid (heap h' (last (episodes h))) = Some (strip (buffered_text h)))"
  unfolding endElement_EpisodeGuid [OF assms] by simp

theorem C7_witness:
  "map_of (mapping (guid_handler (Some ''http://example.org/feed/'') '' ep1 ''))
      (current_path (guid_handler (Some ''http://example.org/feed/'') '' ep1 ''))
     = Some (EpisodeGuid E_guid F_strip)
   \<and> episodes (guid_handler (Some ''http://example.org/feed/'') '' ep1 '') \<noteq> []
   \<and> path_stack (guid_handler (Some ''http://example.org/feed/'') '' ep1 '') \<noteq> []
   \<and> base (guid_handler (Some ''http://example.org/feed/'') '' ep1 '')
        = Some ''http://example.org/feed/''
   \<and> (\<exists>h'. endElement sample_env ''guid''
               (guid_handler (Some ''http://example.org/feed/'') '' ep1 '') = Inr h'
         \<and> guid (heap h' 0) = Some ''http://example.org/feed/ep1'')
   \<and> base (guid_handler None '' ep1 '') = None
   \<and> (\<exists>h'. endElement sample_env ''guid'' (guid_handler None '' ep1 '') = Inr h'
         \<and> guid (heap h' 0) = Some ''ep1'')"
proof -
  let ?g = "guid_handler (Some ''http://example.org/feed/'') '' ep1 ''"
  let ?n = "guid_handler None '' ep1 ''"
  note g = guid_handler_facts [of "Some ''http://example.org/feed/''" "'' ep1 ''"]
  note n = guid_handler_facts [of None "'' ep1 ''"]
  from C7_guid_trimmed_then_joined [OF g(1-3), where E = sample_env and name = "''guid''"]
  have 1: "\<exists>h'. endElement sample_env ''guid'' ?g = Inr h'
         \<and> guid (heap h' 0) = Some ''http://example.org/feed/ep1''"
    unfolding guid_handler_facts sample_strip_ep1 by (simp add: sample_urljoin_ep1)
  from C7_guid_trimmed_then_joined [OF n(1-3), where E = sample_env and name = "''guid''"]
  have 2: "\<exists>h'. endElement sample_env ''guid'' ?n = Inr h' \<and> guid (heap h' 0) = Some ''ep1''"
    unfolding guid_handler_facts sample_strip_ep1 by simp
  from 1 2 g n(5) show ?thesis by blast
qed

text \<open>
  C7 as stated fails: with the base \<^verbatim>\<open>http://example.org/feed/\<close> and the text
  \<^verbatim>\<open>" ep1"\<close> the stored guid is the join of the trimmed text, not the trimmed join of
  the raw text.
\<close>

theorem C7_counterexample:
  "guid_after (endElement sample_env ''guid''
       (guid_handler (Some ''http://example.org/feed/'') '' ep1'')) 0
     = Some ''http://example.org/feed/ep1''
   \<and> strip (urljoin sample_env ''http://example.org/feed/'' '' ep1'')
     = ''http://example.org/feed/ ep1''
   \<and> guid_after (endElement sample_env ''guid''
       (guid_handler (Some ''http://example.org/feed/'') '' ep1'')) 0
     \<noteq> Some (strip (urljoin sample_env ''http://example.org/feed/'' '' ep1''))"
proof -
  have a: "guid_after (endElement sample_env ''guid''
       (guid_handler (Some ''http://example.org/feed/'') '' ep1'')) 0
     = Some ''http://example.org/feed/ep1''"
    unfolding endElement_EpisodeGuid [OF guid_handler_facts(1-3)] guid_handler_facts
      sample_strip_ep1
    by (simp add: guid_after_def sample_urljoin_ep1)
  have b: "strip (urljoin sample_env ''http://example.org/feed/'' '' ep1'')
     = ''http://example.org/feed/ ep1''"
    unfolding sample_urljoin_ep1 by (simp add: strip_def is_space_def)
  show ?thesis unfolding a b by simp
qed

subsection \<open>The table\<close>

lemma MAPPING_guid_eq: "MAPPING_guid =
    [(''rss'', RSS),
     (''rss/channel'', PodcastItem),
     (''rss/channel/title'', PodcastAttr P_title F_squash_whitespace),
     (''rss/channel/link'', PodcastAttr P_link F_strip),
     (''rss/channel/description'', PodcastAttr P_description F_squash_whitespace),
     (''rss/channel/image/url'', PodcastAttr P_cover_url F_strip),
     (''rss/channel/itunes:image'', PodcastAttrFromHref P_cover_url F_strip),
     (''rss/channel/atom:link'', PodcastAttrFromPaymentHref P_payment_url F_strip),
     (''rss/channel/item'', EpisodeItem),
     (''rss/channel/item/guid'', EpisodeGuid E_guid F_guid_closure),
     (''rss/channel/item/title'', EpisodeAttr E_title F_squash_whitespace),
     (''rss/channel/item/link'', EpisodeAttr E_link F_strip),
     (''rss/channel/item/description'', EpisodeAttr E_description F_squash_whitespace),
     (''rss/channel/item/itunes:duration'', EpisodeAttrInt E_total_time F_parse_duration),
     (''rss/channel/item/pubDate'', EpisodeAttrInt E_published F_parse_pubdate),
     (''rss/channel/item/atom:link'', EpisodeAttrFromPaymentHref E_payment_url F_strip),
     (''rss/channel/item/enclosure'', Enclosure)]"
  by (simp add: MAPPING_guid_def MAPPING_def)

lemma mapping_ok_mem:
  "mapping_ok h \<Longrightarrow> map_of (mapping h) p = Some t \<Longrightarrow>
     (p, t) \<in> set MAPPING \<or> (p, t) \<in> set MAPPING_guid"
  unfolding mapping_ok_def by (auto dest: map_of_SomeD)

lemma mem_EpisodeItem:
  "(p, EpisodeItem) \<in> set MAPPING \<or> (p, EpisodeItem) \<in> set MAPPING_guid \<Longrightarrow> p = item_path"
  unfolding MAPPING_guid_eq by (simp add: MAPPING_def)

lemma mem_PodcastItem:
  "(p, PodcastItem) \<in> set MAPPING \<or> (p, PodcastItem) \<in> set MAPPING_guid \<Longrightarrow> p = channel_path"
  unfolding MAPPING_guid_eq by (simp add: MAPPING_def)

lemma mem_EpisodeGuid:
  "(p, EpisodeGuid k f) \<in> set MAPPING \<or> (p, EpisodeGuid k f) \<in> set MAPPING_guid \<Longrightarrow>
     p = guid_path \<and> k = E_guid"
  unfolding MAPPING_guid_eq by (auto simp add: MAPPING_def)

lemma lookup_item_path: "mapping_ok h \<Longrightarrow> map_of (mapping h) item_path = Some EpisodeItem"
  unfolding mapping_ok_def MAPPING_guid_eq by (auto simp add: MAPPING_def)

lemma update_guid_MAPPING_guid:
  "AList.update guid_path (EpisodeGuid E_guid F_guid_closure) MAPPING_guid = MAPPING_guid"
  unfolding MAPPING_guid_eq by simp




lemma target_start_mapping:
  "target_start E t at h = Inr h' \<Longrightarrow> mapping h' = mapping h"
  by (cases t)
     (auto simp: RSS_start_def set_base_def PodcastAttrFromHref_start_def
        PodcastAttrFromPaymentHref_start_def EpisodeItem_start_def EpisodeGuid_start_def
        set_guid_is_permalink_def EpisodeAttrFromHref_start_def
        EpisodeAttrFromPaymentHref_start_def Enclosure_start_def set_episode_attr_def
        set_podcast_attr_proj
        dest!: add_enclosure_update_last dest: update_last_proj(5)
        split: option.splits if_splits)

lemma EpisodeItem_end_mapping:
  "EpisodeItem_end E h = Inr h' \<Longrightarrow> mapping h' = mapping h"
  by (auto simp: EpisodeItem_end_def Let_def split: option.splits if_splits sum.splits)

lemma target_end_mapping:
  assumes "target_end E p t s h = Inr h'"
  shows "mapping h' = (case t of
           EpisodeGuid k f \<Rightarrow> AList.update p (EpisodeGuid k F_guid_closure) (mapping h)
         | _ \<Rightarrow> mapping h)"
proof (cases t)
  case EpisodeItem
  with assms show ?thesis by (auto dest: EpisodeItem_end_mapping)
next
  case PodcastItem
  with assms show ?thesis
    by (auto simp: PodcastItem_end_def Let_def split: option.splits)
qed (use assms in \<open>auto simp: PodcastAttr_end_def EpisodeAttr_end_def EpisodeAttrInt_end_def
        EpisodeGuid_end_def set_episode_attr_def set_episode_attr_int_def Let_def
        set_podcast_attr_proj dest: update_last_proj(5)\<close>)

lemma step_mapping_ok:
  assumes "step E ev h = Inr h'" and "mapping_ok h"
  shows "mapping_ok h'"
proof (cases ev)
  case (StartElement name at)
  show ?thesis
  proof (cases "map_of (mapping h) (join ''/'' (path_stack h @ [name]))")
    case None
    with assms StartElement show ?thesis
      by (auto simp: startElement_def Let_def mapping_ok_def)
  next
    case (Some t)
    with assms StartElement obtain h2 where
      h2: "target_start E t at (h\<lparr>path_stack := path_stack h @ [name]\<rparr>) = Inr h2"
      and h': "h' = (if WANT_TEXT t then h2\<lparr>text_buf := Some []\<rparr> else h2)"
      by (auto simp: startElement_def Let_def split: sum.splits)
    from target_start_mapping [OF h2] h' assms(2) show ?thesis
      by (auto simp: mapping_ok_def)
  qed
next
  case (Characters c)
  with assms show ?thesis
    by (auto simp: characters_def mapping_ok_def split: option.splits)
next
  case (EndElement name)
  show ?thesis
  proof (cases "map_of (mapping h) (join ''/'' (path_stack h))")
    case None
    with assms EndElement show ?thesis
      by (auto simp: endElement_def pop_path_def Let_def mapping_ok_def split: if_splits)
  next
    case (Some t)
    with assms EndElement obtain h2 where
      h2: "target_end E (join ''/'' (path_stack h)) t (buffered_text h) h = Inr h2"
      and h': "pop_path (h2\<lparr>text_buf := None\<rparr>) = Inr h'"
      by (auto simp: endElement_def Let_def buffered_text_def split: sum.splits)
    from h' have m: "mapping h' = mapping h2"
      by (auto simp: pop_path_def split: if_splits)
    show ?thesis
    proof (cases "\<exists>k f. t = EpisodeGuid k f")
      case True
      then obtain k f where t: "t = EpisodeGuid k f" by blast
      from mapping_ok_mem [OF assms(2) Some] t
      have p: "join ''/'' (path_stack h) = guid_path" and k: "k = E_guid"
        using mem_EpisodeGuid by blast+
      from target_end_mapping [OF h2] t p k
      have "mapping h2 = AList.update guid_path (EpisodeGuid E_guid F_guid_closure) (mapping h)"
        by simp
      with assms(2) m show ?thesis
        by (auto simp: mapping_ok_def update_guid_MAPPING_guid MAPPING_guid_def)
    next
      case False
      with target_end_mapping [OF h2] have "mapping h2 = mapping h"
        by (cases t) auto
      with assms(2) m show ?thesis by (simp add: mapping_ok_def)
    qed
  qed
qed


lemma mapping_ok_init: "mapping_ok (PodcastHandler MAPPING u n)"
  by (simp add: mapping_ok_def PodcastHandler_def)





subsection \<open>Sizes and types in the store\<close>

lemma cell_inv_new_entry: "base_inv P \<Longrightarrow> cell_inv P new_entry"
  by (simp add: cell_inv_def base_inv_def new_entry_def)

lemma cell_inv_store_text: "cell_inv P e \<Longrightarrow> cell_inv P (store_text k v e)"
  by (cases k) (simp_all add: cell_inv_def)

lemma cell_inv_store_int: "cell_inv P e \<Longrightarrow> cell_inv P (store_int k v e)"
  by (cases k) (simp_all add: cell_inv_def)

lemma cell_inv_permalink: "cell_inv P e \<Longrightarrow> cell_inv P (e\<lparr>guid_is_permalink := b\<rparr>)"
  by (simp add: cell_inv_def)

lemma cell_inv_finish:
  assumes "cell_inv P e" and "enclosures e = Some encs" and "base_inv P"
      and "finish_entry (hd (if encs = [] then encs @ [synthetic_enclosure l] else encs)) e = Inr e'"
  shows "cell_inv P e'"
proof -
  let ?c = "hd (if encs = [] then encs @ [synthetic_enclosure l] else encs)"
  have c: "P (enc_file_size ?c) (enc_mime_type ?c)"
  proof (cases encs)
    case Nil
    with assms(3) show ?thesis by (simp add: synthetic_enclosure_def base_inv_def)
  next
    case (Cons c cs)
    with assms(1,2) show ?thesis by (simp add: cell_inv_def)
  qed
  from assms(4) have "file_size e' = enc_file_size ?c" "mime_type e' = enc_mime_type ?c"
    "enclosures e' = None"
    by (auto simp: finish_entry_def Let_def split: option.splits if_splits)
  with c show ?thesis by (simp add: cell_inv_def)
qed

lemma heap_inv_update_last:
  assumes "update_last f h = Inr h'" and "heap_inv P h" and "\<And>e. cell_inv P e \<Longrightarrow> cell_inv P (f e)"
  shows "heap_inv P h'"
  using assms by (auto simp: update_last_def heap_inv_def split: if_splits)

lemma heap_inv_frame:
  "heap h' = heap h \<Longrightarrow> heap_inv P h \<Longrightarrow> heap_inv P h'"
  by (simp add: heap_inv_def)

lemma heap_inv_add_enclosure:
  assumes "add_enclosure u n m h = Inr h'" and "heap_inv P h" and "P n m"
  shows "heap_inv P h'"
  using assms
  by (auto simp: add_enclosure_def heap_inv_def cell_inv_def Let_def
      split: if_splits option.splits)

lemma heap_inv_target_start:
  assumes "target_start E t at h = Inr h'" and "heap_inv P h" and "base_inv P"
      and "P (parse_length E (map_of at ''length'')) (parse_type (map_of at ''type''))"
  shows "heap_inv P h'"
proof (cases t)
  case EpisodeItem
  with assms show ?thesis
    by (auto simp: EpisodeItem_start_def heap_inv_def cell_inv_new_entry)
next
  case Enclosure
  with assms show ?thesis
    by (auto simp: Enclosure_start_def split: option.splits intro: heap_inv_add_enclosure)
next
  case (EpisodeGuid k f)
  with assms show ?thesis
    by (auto simp: EpisodeGuid_start_def set_guid_is_permalink_def split: if_splits
        intro: heap_inv_update_last cell_inv_permalink)
next
  case (EpisodeAttrFromHref k f)
  with assms show ?thesis
    by (auto simp: EpisodeAttrFromHref_start_def set_episode_attr_def
        split: if_splits option.splits intro: heap_inv_update_last cell_inv_store_text)
next
  case (EpisodeAttrFromPaymentHref k f)
  with assms show ?thesis
    by (auto simp: EpisodeAttrFromPaymentHref_start_def EpisodeAttrFromHref_start_def
        set_episode_attr_def
        split: if_splits option.splits intro: heap_inv_update_last cell_inv_store_text)
qed (use assms in \<open>auto simp: RSS_start_def set_base_def PodcastAttrFromHref_start_def
        PodcastAttrFromPaymentHref_start_def heap_inv_def set_podcast_attr_proj
        split: option.splits if_splits\<close>)

lemma heap_inv_EpisodeItem_end:
  assumes "EpisodeItem_end E h = Inr h'" and "heap_inv P h" and "base_inv P"
  shows "heap_inv P h'"
proof -
  let ?a = "last (episodes h)"
  from assms(1) obtain encs where encs: "enclosures (heap h ?a) = Some encs"
    by (auto simp: EpisodeItem_end_def Let_def split: if_splits option.splits)
  show ?thesis
  proof (cases "encs = [] \<and> \<not> is_video_link E (link (heap h ?a))")
    case True
    with assms(1) encs have "heap h' = heap h"
      by (auto simp: EpisodeItem_end_def Let_def split: if_splits)
    from this assms(2) show ?thesis by (rule heap_inv_frame)
  next
    case False
    with assms(1) encs obtain e' where
      f: "finish_entry (hd (if encs = [] then encs @ [synthetic_enclosure (link (heap h ?a))]
                            else encs)) (heap h ?a) = Inr e'"
      and h': "heap h' = (heap h)(?a := e')"
      by (auto simp: EpisodeItem_end_def Let_def split: if_splits sum.splits)
    from assms(2) have "cell_inv P (heap h ?a)" by (simp add: heap_inv_def)
    from cell_inv_finish [OF this encs assms(3) f] assms(2) h' show ?thesis
      by (simp add: heap_inv_def)
  qed
qed

lemma heap_inv_target_end:
  assumes "target_end E p t s h = Inr h'" and "heap_inv P h" and "base_inv P"
  shows "heap_inv P h'"
proof (cases t)
  case EpisodeItem
  with assms show ?thesis by (auto intro: heap_inv_EpisodeItem_end)
next
  case PodcastItem
  with assms show ?thesis by (auto simp: heap_inv_def heap_PodcastItem_end)
next
  case (EpisodeAttr k f)
  with assms show ?thesis
    by (auto simp: EpisodeAttr_end_def set_episode_attr_def
        intro: heap_inv_update_last cell_inv_store_text)
next
  case (EpisodeAttrInt k f)
  with assms show ?thesis
    by (auto simp: EpisodeAttrInt_end_def set_episode_attr_int_def
        intro: heap_inv_update_last cell_inv_store_int)
next
  case (EpisodeGuid k f)
  with assms have "update_last (store_text k (apply_text_filter E
        (h\<lparr>mapping := AList.update p (EpisodeGuid k F_guid_closure) (mapping h)\<rparr>)
        F_guid_closure s))
      (h\<lparr>mapping := AList.update p (EpisodeGuid k F_guid_closure) (mapping h)\<rparr>) = Inr h'"
    by (simp add: EpisodeGuid_end_def EpisodeAttr_end_def set_episode_attr_def Let_def)
  moreover from assms(2)
  have "heap_inv P (h\<lparr>mapping := AList.update p (EpisodeGuid k F_guid_closure) (mapping h)\<rparr>)"
    by (simp add: heap_inv_def)
  ultimately show ?thesis
    by (rule heap_inv_update_last) (rule cell_inv_store_text)
qed (use assms in \<open>auto simp: PodcastAttr_end_def heap_inv_def set_podcast_attr_proj\<close>)

lemma heap_inv_step:
  assumes "step E ev h = Inr h'" and "heap_inv P h" and "base_inv P" and "attrs_inv E P ev"
  shows "heap_inv P h'"
proof (cases ev)
  case (StartElement name at)
  show ?thesis
  proof (cases "map_of (mapping h) (join ''/'' (path_stack h @ [name]))")
    case None
    with assms StartElement show ?thesis
      by (auto simp: startElement_def Let_def heap_inv_def)
  next
    case (Some t)
    with assms StartElement obtain h2 where
      h2: "target_start E t at (h\<lparr>path_stack := path_stack h @ [name]\<rparr>) = Inr h2"
      and h': "h' = (if WANT_TEXT t then h2\<lparr>text_buf := Some []\<rparr> else h2)"
      by (auto simp: startElement_def Let_def split: sum.splits)
    from assms(2) have "heap_inv P (h\<lparr>path_stack := path_stack h @ [name]\<rparr>)"
      by (simp add: heap_inv_def)
    from heap_inv_target_start [OF h2 this assms(3)] assms(4) StartElement
    have "heap_inv P h2" by (simp add: attrs_inv_def)
    with h' show ?thesis by (simp add: heap_inv_def)
  qed
next
  case (Characters c)
  with assms show ?thesis
    by (auto simp: characters_def heap_inv_def split: option.splits)
next
  case (EndElement name)
  show ?thesis
  proof (cases "map_of (mapping h) (join ''/'' (path_stack h))")
    case None
    with assms EndElement show ?thesis
      by (auto simp: endElement_def pop_path_def Let_def heap_inv_def split: if_splits)
  next
    case (Some t)
    with assms EndElement obtain h2 where
      h2: "target_end E (join ''/'' (path_stack h)) t (buffered_text h) h = Inr h2"
      and h': "pop_path (h2\<lparr>text_buf := None\<rparr>) = Inr h'"
      by (auto simp: endElement_def Let_def buffered_text_def split: sum.splits)
    from h' have "heap h' = heap h2"
      by (auto simp: pop_path_def split: if_splits)
    with heap_inv_target_end [OF h2 assms(2,3)] show ?thesis
      by (simp add: heap_inv_def)
  qed
qed

lemma heap_inv_run:
  "run E evs h = Inr h' \<Longrightarrow> heap_inv P h \<Longrightarrow> base_inv P \<Longrightarrow>
     list_all (attrs_inv E P) evs \<Longrightarrow> heap_inv P h'"
proof (induction evs arbitrary: h)
  case Nil
  then show ?case by simp
next
  case (Cons ev evs)
  from Cons.prems(1) obtain h1 where s: "step E ev h = Inr h1" and r: "run E evs h1 = Inr h'"
    by (auto split: sum.splits)
  from Cons.prems have "heap_inv P h1"
    by (intro heap_inv_step [OF s]) simp_all
  with Cons.IH [OF r] Cons.prems show ?case by simp
qed

lemma heap_inv_init: "base_inv P \<Longrightarrow> heap_inv P (PodcastHandler m u n)"
  by (simp add: heap_inv_def PodcastHandler_def cell_inv_new_entry)

lemma parse_episodes_inv:
  assumes "parse E u evs n = Inr d" and "base_inv P" and "list_all (attrs_inv E P) evs"
  shows "list_all (\<lambda>e. P (file_size e) (mime_type e)) (doc_episodes d)"
proof -
  from assms(1) obtain h where r: "run E evs (PodcastHandler MAPPING u n) = Inr h"
    and d: "d = data h"
    by (auto simp: parse_def split: sum.splits)
  from heap_inv_run [OF r heap_inv_init [OF assms(2)] assms(2,3)]
  have "heap_inv P h" .
  then show ?thesis
    unfolding d by (simp add: data_def heap_inv_def cell_inv_def list_all_iff)
qed

lemma mime_ok_parse_type: "mime_ok (parse_type t)"
  by (auto simp: mime_ok_def parse_type_def split: option.splits)

lemma EpisodeItem_end_synthetic:
  assumes "episodes h \<noteq> []"
      and "enclosures (heap h (last (episodes h))) = Some []"
      and "is_video_link E (link (heap h (last (episodes h))))"
      and "guid_is_permalink (heap h (last (episodes h))) \<noteq> None"
  shows "\<exists>h'. EpisodeItem_end E h = Inr h' \<and> episodes h' = episodes h
     \<and> url (heap h' (last (episodes h))) = Some (link (heap h (last (episodes h))))
     \<and> file_size (heap h' (last (episodes h))) = - 1
     \<and> mime_type (heap h' (last (episodes h))) = ''video/mp4''
     \<and> enclosures (heap h' (last (episodes h))) = None"
  using assms
  by (auto simp: EpisodeItem_end_def finish_entry_def synthetic_enclosure_def Let_def
      split: option.splits)

text \<open>
  C5.  \<open>parse_type\<close> returns its input when the input is non-empty and contains a slash
  and \<^verbatim>\<open>application/octet-stream\<close> for every other input, absent, empty or without a
  slash; an episode closed on a synthetic enclosure has the type \<^verbatim>\<open>video/mp4\<close>; and the
  \<open>mime_type\<close> of every episode of the document that \<open>parse\<close> returns is non-empty and
  contains a slash.
\<close>

theorem C5_mime_type_has_slash:
  "(s \<noteq> [] \<and> CHR ''/'' \<in> set s \<longrightarrow> parse_type (Some s) = s)
   \<and> (s = [] \<or> CHR ''/'' \<notin> set s \<longrightarrow> parse_type (Some s) = ''application/octet-stream'')
   \<and> parse_type None = ''application/octet-stream''
   \<and> (episodes h \<noteq> [] \<and> enclosures (heap h (last (episodes h))) = Some []
        \<and> is_video_link E (link (heap h (last (episodes h))))
        \<and> guid_is_permalink (heap h (last (episodes h))) \<noteq> None \<longrightarrow>
       (\<exists>h'. EpisodeItem_end E h = Inr h'
          \<and> mime_type (heap h' (last (episodes h))) = ''video/mp4''))
   \<and> (parse E u evs n = Inr d \<longrightarrow>
       list_all (\<lambda>e. mime_type e \<noteq> [] \<and> CHR ''/'' \<in> set (mime_type e)) (doc_episodes d))"
proof (intro conjI impI)
  assume "episodes h \<noteq> [] \<and> enclosures (heap h (last (episodes h))) = Some []
        \<and> is_video_link E (link (heap h (last (episodes h))))
        \<and> guid_is_permalink (heap h (last (episodes h))) \<noteq> None"
  then show "\<exists>h'. EpisodeItem_end E h = Inr h'
          \<and> mime_type (heap h' (last (episodes h))) = ''video/mp4''"
    using EpisodeItem_end_synthetic [of h E] by blast
next
  assume p: "parse E u evs n = Inr d"
  have b: "base_inv (\<lambda>n m. mime_ok m)"
    by (simp add: base_inv_def mime_ok_def)
  have "list_all (attrs_inv E (\<lambda>n m. mime_ok m)) evs"
    by (auto simp: list_all_iff attrs_inv_def mime_ok_parse_type split: event.splits)
  from parse_episodes_inv [OF p b this]
  show "list_all (\<lambda>e. mime_type e \<noteq> [] \<and> CHR ''/'' \<in> set (mime_type e)) (doc_episodes d)"
    by (simp add: mime_ok_def)
qed (simp_all add: parse_type_def)

theorem C5_witness:
  "parse_type (Some ''audio/mpeg'') = ''audio/mpeg''
   \<and> parse_type (Some ''mp3'') = ''application/octet-stream''
   \<and> is_video_link sample_env ''http://www.youtube.com/watch?v=abc''
   \<and> (\<exists>h'. EpisodeItem_end sample_env
               (item_handler [] ''http://www.youtube.com/watch?v=abc'' None) = Inr h'
          \<and> mime_type (heap h' 0) = ''video/mp4'')
   \<and> (\<exists>d. parse sample_env ''http://x/feed.xml''
              (one_item_feed [(''url'', ''e.mp3''), (''type'', ''mp3'')] ''http://x/page'') 0 = Inr d
          \<and> map mime_type (doc_episodes d) = [''application/octet-stream''])"
proof -
  let ?h = "item_handler [] ''http://www.youtube.com/watch?v=abc'' None"
  let ?p = "parse sample_env ''http://x/feed.xml''
              (one_item_feed [(''url'', ''e.mp3''), (''type'', ''mp3'')] ''http://x/page'') 0"
  note c = C5_mime_type_has_slash
  have v: "is_video_link sample_env ''http://www.youtube.com/watch?v=abc''"
    by (simp add: is_video_link_def sample_env_def)
  have l: "last (episodes ?h) = 0"
    by (simp add: item_handler_def)
  have lk: "link (heap ?h (last (episodes ?h))) = ''http://www.youtube.com/watch?v=abc''"
    by (simp add: item_handler_def new_entry_def)
  have "episodes ?h \<noteq> []" "enclosures (heap ?h (last (episodes ?h))) = Some []"
    "guid_is_permalink (heap ?h (last (episodes ?h))) \<noteq> None"
    by (simp_all add: item_handler_def new_entry_def)
  with v lk have prem: "episodes ?h \<noteq> [] \<and> enclosures (heap ?h (last (episodes ?h))) = Some []
        \<and> is_video_link sample_env (link (heap ?h (last (episodes ?h))))
        \<and> guid_is_permalink (heap ?h (last (episodes ?h))) \<noteq> None"
    by simp
  have 1: "parse_type (Some ''audio/mpeg'') = ''audio/mpeg''"
    by (rule c [where s = "''audio/mpeg''", THEN conjunct1, THEN mp]) simp
  have 2: "parse_type (Some ''mp3'') = ''application/octet-stream''"
    by (rule c [where s = "''mp3''", THEN conjunct2, THEN conjunct1, THEN mp]) simp
  have 3: "\<exists>h'. EpisodeItem_end sample_env ?h = Inr h' \<and> mime_type (heap h' 0) = ''video/mp4''"
    using c [where h = ?h and E = sample_env, THEN conjunct2, THEN conjunct2, THEN conjunct2,
        THEN conjunct1, THEN mp, OF prem]
    unfolding l .
  have "map mime_type (episodes_of ?p) = [''application/octet-stream'']"
    by code_simp
  then obtain d where d: "?p = Inr d"
    and m: "map mime_type (doc_episodes d) = [''application/octet-stream'']"
    by (cases ?p) (simp_all add: episodes_of_def)
  from d m have 4: "\<exists>d. ?p = Inr d
      \<and> map mime_type (doc_episodes d) = [''application/octet-stream'']"
    by (intro exI conjI)
  show ?thesis
    by (intro conjI 1 2 v 3 4)
qed

subsection \<open>The path stack\<close>

lemma join_snoc: "ps \<noteq> [] \<Longrightarrow> join sep (ps @ [x]) = join sep ps @ sep @ x"
  by (induction sep ps rule: join.induct) simp_all

lemma length_join_append: "length (join sep xs) \<le> length (join sep (xs @ ys))"
proof (induction ys rule: rev_induct)
  case Nil
  then show ?case by simp
next
  case (snoc y ys)
  show ?case
  proof (cases "xs @ ys = []")
    case True
    then show ?thesis by simp
  next
    case False
    from join_snoc [OF False, of sep y] snoc show ?thesis by simp
  qed
qed

lemma length_join_take: "length (join sep (take n ps)) \<le> length (join sep ps)"
  using length_join_append [of sep "take n ps" "drop n ps"] by simp

lemma item_open_snoc:
  assumes "item_open ps"
  shows "item_open (ps @ [x])"
proof -
  from assms obtain n where n: "0 < n" "n \<le> length ps" "join ''/'' (take n ps) = item_path"
    unfolding item_open_def by blast
  then have "n \<le> length (ps @ [x])" "join ''/'' (take n (ps @ [x])) = item_path"
    by simp_all
  with n(1) show ?thesis unfolding item_open_def by blast
qed

lemma item_open_butlast:
  assumes "item_open ps" and "join ''/'' ps \<noteq> item_path"
  shows "item_open (butlast ps)"
proof -
  from assms(1) obtain n where n: "0 < n" "n \<le> length ps" "join ''/'' (take n ps) = item_path"
    unfolding item_open_def by blast
  with assms(2) have "n \<noteq> length ps" by auto
  with n have "n \<le> length (butlast ps)" "take n (butlast ps) = take n ps"
    by (simp_all add: take_butlast)
  with n show ?thesis unfolding item_open_def by metis
qed

lemma item_open_self: "join ''/'' ps = item_path \<Longrightarrow> item_open ps"
  unfolding item_open_def by (rule exI [of _ "length ps"]) (cases ps; simp)

lemma not_item_open_before:
  assumes "join ''/'' (ps @ [x]) = item_path"
  shows "\<not> item_open ps"
proof
  assume "item_open ps"
  then obtain n where n: "0 < n" "n \<le> length ps" "join ''/'' (take n ps) = item_path"
    unfolding item_open_def by blast
  then have ne: "ps \<noteq> []" by auto
  from length_join_take [of "''/''" n ps] n(3) have "16 \<le> length (join ''/'' ps)" by simp
  moreover from assms have "length (join ''/'' (ps @ [x])) = 16" by simp
  then have "length (join ''/'' ps) + 1 + length x = 16"
    unfolding join_snoc [OF ne] by simp
  ultimately show False by simp
qed

lemma not_item_open_channel:
  assumes "join ''/'' ps = channel_path"
  shows "\<not> item_open ps"
proof
  assume "item_open ps"
  then obtain n where "join ''/'' (take n ps) = item_path"
    unfolding item_open_def by blast
  with length_join_take [of "''/''" n ps] assms show False by simp
qed

lemma not_item_open_Nil: "\<not> item_open []"
  by (simp add: item_open_def)

subsection \<open>What a callback does to the episode lists\<close>

lemma same_shape_refl: "same_shape h h"
  by (simp add: same_shape_def)

lemma same_shape_podcast_attr: "same_shape h (set_podcast_attr k v h)"
  by (simp add: same_shape_def closed_def set_podcast_attr_proj)

lemma update_last_same_shape:
  assumes "update_last f h = Inr h'"
      and "\<And>e. (enclosures (f e) = None) = (enclosures e = None)"
  shows "same_shape h h'"
  using assms by (auto simp: update_last_def same_shape_def closed_def split: if_splits)

lemma add_enclosure_same_shape:
  "add_enclosure u n m h = Inr h' \<Longrightarrow> same_shape h h'"
  by (auto simp: add_enclosure_def same_shape_def closed_def Let_def
      split: if_splits option.splits)

lemma store_text_enclosures: "enclosures (store_text k v e) = enclosures e"
  by (cases k) simp_all

lemma store_int_enclosures: "enclosures (store_int k v e) = enclosures e"
  by (cases k) simp_all

lemma set_episode_attr_same_shape:
  "set_episode_attr k v h = Inr h' \<Longrightarrow> same_shape h h'"
  unfolding set_episode_attr_def
  by (erule update_last_same_shape) (simp add: store_text_enclosures)

lemma set_episode_attr_int_same_shape:
  "set_episode_attr_int k v h = Inr h' \<Longrightarrow> same_shape h h'"
  unfolding set_episode_attr_int_def
  by (erule update_last_same_shape) (simp add: store_int_enclosures)

lemma set_guid_is_permalink_same_shape:
  "set_guid_is_permalink b h = Inr h' \<Longrightarrow> same_shape h h'"
  unfolding set_guid_is_permalink_def
  by (erule update_last_same_shape) simp

lemma target_start_effect:
  assumes "target_start E t at h = Inr h'"
  shows "(t = EpisodeItem \<and> h' = EpisodeItem_start h) \<or> (t \<noteq> EpisodeItem \<and> same_shape h h')"
proof (cases t)
  case Enclosure
  with assms show ?thesis
    by (auto simp: Enclosure_start_def same_shape_refl split: option.splits
        dest: add_enclosure_same_shape)
next
  case (EpisodeGuid k f)
  with assms show ?thesis
    by (auto simp: EpisodeGuid_start_def split: if_splits
        dest: set_guid_is_permalink_same_shape)
next
  case (EpisodeAttrFromHref k f)
  with assms show ?thesis
    by (auto simp: EpisodeAttrFromHref_start_def same_shape_refl
        split: option.splits if_splits dest: set_episode_attr_same_shape)
next
  case (EpisodeAttrFromPaymentHref k f)
  with assms show ?thesis
    by (auto simp: EpisodeAttrFromPaymentHref_start_def EpisodeAttrFromHref_start_def
        same_shape_refl split: option.splits if_splits dest: set_episode_attr_same_shape)
next
  case RSS
  with assms show ?thesis
    by (auto simp: RSS_start_def set_base_def same_shape_def closed_def)
next
  case (PodcastAttrFromHref k f)
  with assms show ?thesis
    by (auto simp: PodcastAttrFromHref_start_def same_shape_refl same_shape_podcast_attr
        split: option.splits if_splits)
next
  case (PodcastAttrFromPaymentHref k f)
  with assms show ?thesis
    by (auto simp: PodcastAttrFromPaymentHref_start_def PodcastAttrFromHref_start_def
        same_shape_refl same_shape_podcast_attr split: option.splits if_splits)
qed (use assms in \<open>auto simp: same_shape_refl\<close>)

lemma target_end_effect:
  assumes "target_end E p t s h = Inr h'"
  shows "(t = EpisodeItem \<and> EpisodeItem_end E h = Inr h')
       \<or> (t = PodcastItem \<and> h' = PodcastItem_end h)
       \<or> (t \<noteq> EpisodeItem \<and> t \<noteq> PodcastItem \<and> same_shape h h')"
proof (cases t)
  case (PodcastAttr k f)
  with assms show ?thesis
    by (auto simp: PodcastAttr_end_def same_shape_podcast_attr)
next
  case (EpisodeAttr k f)
  with assms show ?thesis
    by (auto simp: EpisodeAttr_end_def dest: set_episode_attr_same_shape)
next
  case (EpisodeAttrInt k f)
  with assms show ?thesis
    by (auto simp: EpisodeAttrInt_end_def dest: set_episode_attr_int_same_shape)
next
  case (EpisodeGuid k f)
  let ?h1 = "h\<lparr>mapping := AList.update p (EpisodeGuid k F_guid_closure) (mapping h)\<rparr>"
  from EpisodeGuid assms have "set_episode_attr k (apply_text_filter E ?h1 F_guid_closure s) ?h1
      = Inr h'"
    by (simp add: EpisodeGuid_end_def EpisodeAttr_end_def Let_def)
  then have "same_shape ?h1 h'" by (rule set_episode_attr_same_shape)
  then have "same_shape h h'" by (simp add: same_shape_def closed_def)
  with EpisodeGuid show ?thesis by simp
qed (use assms in \<open>auto simp: same_shape_refl\<close>)

lemma set_sort_reverse: "set (sort_reverse key xs) = set xs"
  by (simp add: sort_reverse_def)

lemma distinct_sort_reverse: "distinct (sort_reverse key xs) = distinct xs"
  by (simp add: sort_reverse_def)

lemma set_slice_to: "set (slice_to n xs) \<subseteq> set xs"
  by (auto simp: slice_to_def dest: in_set_takeD)

subsection \<open>The shape of the handler is invariant\<close>

lemma refs_eq:
  "episodes h' = episodes h \<Longrightarrow> data_episodes h' = data_episodes h \<Longrightarrow> refs h' = refs h"
  by (simp add: refs_def the_data_episodes_def split: option.splits)

lemma last_notin_butlast: "distinct xs \<Longrightarrow> xs \<noteq> [] \<Longrightarrow> last xs \<notin> set (butlast xs)"
proof -
  assume d: "distinct xs" and ne: "xs \<noteq> []"
  from ne have "xs = butlast xs @ [last xs]" by simp
  with d have "distinct (butlast xs @ [last xs])" by simp
  then show ?thesis by simp
qed

lemma handler_wf_shape:
  assumes "handler_wf h" and "same_shape h h2" and "mapping_ok h'"
      and "episodes h' = episodes h2" and "data_episodes h' = data_episodes h2"
      and "next_ref h' = next_ref h2" and "heap h' = heap h2"
      and "item_open (path_stack h) \<Longrightarrow> item_open (path_stack h')"
  shows "handler_wf h'"
proof -
  from assms(2,4,5,6) have l: "episodes h' = episodes h" "data_episodes h' = data_episodes h"
    "next_ref h' = next_ref h"
    by (simp_all add: same_shape_def)
  from assms(2,7) have c: "\<And>a. closed h' a = closed h a"
    by (simp add: same_shape_def closed_def)
  from l(1,2) have r: "refs h' = refs h" by (rule refs_eq)
  from assms(1,3,8) show ?thesis
    unfolding handler_wf_def r l c by blast
qed

lemma handler_wf_item_start:
  assumes "handler_wf h" and "join ''/'' (path_stack h @ [name]) = item_path"
  shows "handler_wf (EpisodeItem_start (h\<lparr>path_stack := path_stack h @ [name]\<rparr>))"
proof -
  let ?h' = "EpisodeItem_start (h\<lparr>path_stack := path_stack h @ [name]\<rparr>)"
  from assms(2) have no: "\<not> item_open (path_stack h)" by (rule not_item_open_before)
  with assms(1) have cl: "\<And>a. a \<in> set (episodes h) \<Longrightarrow> closed h a"
    unfolding handler_wf_def by blast
  from assms(1) have fr: "\<And>a. a \<in> refs h \<Longrightarrow> a < next_ref h"
    and d: "distinct (episodes h)" and m: "mapping_ok h"
    and det: "\<And>l a. data_episodes h = Some l \<Longrightarrow> a \<in> set l \<Longrightarrow> closed h a"
    unfolding handler_wf_def by blast+
  have e: "episodes ?h' = episodes h @ [next_ref h]" "data_episodes ?h' = data_episodes h"
    "next_ref ?h' = Suc (next_ref h)" "path_stack ?h' = path_stack h @ [name]"
    "mapping ?h' = mapping h"
    by (simp_all add: EpisodeItem_start_def)
  have hp: "\<And>a. a \<noteq> next_ref h \<Longrightarrow> closed ?h' a = closed h a"
    and nw: "\<not> closed ?h' (next_ref h)"
    by (simp_all add: EpisodeItem_start_def closed_def new_entry_def)
  have r: "refs ?h' \<subseteq> insert (next_ref h) (refs h)"
    by (auto simp: refs_def the_data_episodes_def e split: option.splits)
  have 1: "mapping_ok ?h'" using m by (simp add: mapping_ok_def e)
  have 2: "distinct (episodes ?h')"
    using d fr by (auto simp: e refs_def)
  have 3: "\<forall>a \<in> refs ?h'. a < next_ref ?h'"
    using r fr by (auto simp: e less_Suc_eq)
  have 4: "\<forall>a \<in> set (episodes ?h'). \<not> closed ?h' a \<longrightarrow>
      item_open (path_stack ?h') \<and> a = last (episodes ?h')"
  proof (intro ballI impI)
    fix a assume a: "a \<in> set (episodes ?h')" and o: "\<not> closed ?h' a"
    have "a = next_ref h"
    proof (rule ccontr)
      assume n: "a \<noteq> next_ref h"
      with a have "a \<in> set (episodes h)" by (simp add: e)
      with cl hp [OF n] o show False by simp
    qed
    with assms(2) show "item_open (path_stack ?h') \<and> a = last (episodes ?h')"
      by (simp add: e item_open_self)
  qed
  have 5: "\<forall>l. data_episodes ?h' = Some l \<longrightarrow> (\<forall>a \<in> set l. closed ?h' a)"
  proof (intro allI impI ballI)
    fix l a assume l: "data_episodes ?h' = Some l" and a: "a \<in> set l"
    then have dl: "data_episodes h = Some l" by (simp add: e)
    with a have "a \<in> refs h" by (simp add: refs_def the_data_episodes_def)
    with fr have "a \<noteq> next_ref h" by auto
    with det [OF dl a] hp show "closed ?h' a" by simp
  qed
  from 1 2 3 4 5 show ?thesis unfolding handler_wf_def by blast
qed

lemma handler_wf_item_end:
  assumes "handler_wf h" and "EpisodeItem_end E h = Inr h2"
  shows "handler_wf (h2\<lparr>text_buf := None, path_stack := butlast (path_stack h)\<rparr>)"
proof -
  let ?h' = "h2\<lparr>text_buf := None, path_stack := butlast (path_stack h)\<rparr>"
  let ?a = "last (episodes h)"
  from assms(1) have fr: "\<And>a. a \<in> refs h \<Longrightarrow> a < next_ref h"
    and d: "distinct (episodes h)" and m: "mapping_ok h"
    and op: "\<And>a. a \<in> set (episodes h) \<Longrightarrow> \<not> closed h a \<Longrightarrow> a = ?a"
    and det: "\<And>l a. data_episodes h = Some l \<Longrightarrow> a \<in> set l \<Longrightarrow> closed h a"
    unfolding handler_wf_def by blast+
  from assms(2) have ne: "episodes h \<noteq> []"
    by (auto simp: EpisodeItem_end_def split: if_splits)
  from assms(2) have fields: "data_episodes h2 = data_episodes h" "next_ref h2 = next_ref h"
    "mapping h2 = mapping h"
    by (auto simp: EpisodeItem_end_def Let_def split: if_splits option.splits sum.splits)
  from assms(2) have cases: "(episodes h2 = butlast (episodes h) \<and> heap h2 = heap h)
      \<or> (episodes h2 = episodes h \<and> (\<exists>e'. heap h2 = (heap h)(?a := e') \<and> enclosures e' = None))"
    by (auto simp: EpisodeItem_end_def finish_entry_def Let_def
        split: if_splits option.splits sum.splits)
  have sub: "set (episodes h2) \<subseteq> set (episodes h)"
    using cases by (auto dest: in_set_butlastD)
  have mono: "\<And>a. closed h a \<Longrightarrow> closed h2 a"
    using cases by (auto simp: closed_def)
  have allc: "\<And>a. a \<in> set (episodes h2) \<Longrightarrow> closed h2 a"
  proof -
    fix a assume a: "a \<in> set (episodes h2)"
    from cases show "closed h2 a"
    proof
      assume c: "episodes h2 = butlast (episodes h) \<and> heap h2 = heap h"
      with a have ab: "a \<in> set (butlast (episodes h))" by simp
      from d ne have "?a \<notin> set (butlast (episodes h))"
        by (rule last_notin_butlast)
      with ab have "a \<noteq> ?a" by auto
      with op [of a] ab have "closed h a" by (auto dest: in_set_butlastD)
      with c show ?thesis by (simp add: closed_def)
    next
      assume c: "episodes h2 = episodes h
          \<and> (\<exists>e'. heap h2 = (heap h)(?a := e') \<and> enclosures e' = None)"
      show ?thesis
      proof (cases "a = ?a")
        case True
        with c show ?thesis by (auto simp: closed_def)
      next
        case False
        with op [of a] a c have "closed h a" by auto
        then show ?thesis by (rule mono)
      qed
    qed
  qed
  have r: "refs ?h' \<subseteq> refs h"
    using sub by (auto simp: refs_def the_data_episodes_def fields split: option.splits)
  have 1: "mapping_ok ?h'" using m by (simp add: mapping_ok_def fields)
  have 2: "distinct (episodes ?h')"
    using cases d by (auto simp: distinct_butlast)
  have 3: "\<forall>a \<in> refs ?h'. a < next_ref ?h'"
    using r fr by (auto simp: fields)
  have 4: "\<forall>a \<in> set (episodes ?h'). \<not> closed ?h' a \<longrightarrow>
      item_open (path_stack ?h') \<and> a = last (episodes ?h')"
    using allc by (simp add: closed_def)
  have 5: "\<forall>l. data_episodes ?h' = Some l \<longrightarrow> (\<forall>a \<in> set l. closed ?h' a)"
    using det mono by (auto simp: fields closed_def)
  from 1 2 3 4 5 show ?thesis unfolding handler_wf_def by blast
qed

lemma handler_wf_channel_end:
  assumes "handler_wf h" and "join ''/'' (path_stack h) = channel_path"
  shows "handler_wf ((PodcastItem_end h)\<lparr>text_buf := None, path_stack := butlast (path_stack h)\<rparr>)"
proof -
  let ?h' = "(PodcastItem_end h)\<lparr>text_buf := None, path_stack := butlast (path_stack h)\<rparr>"
  from assms(2) have no: "\<not> item_open (path_stack h)" by (rule not_item_open_channel)
  with assms(1) have cl: "\<And>a. a \<in> refs h \<Longrightarrow> closed h a"
    unfolding handler_wf_def refs_def the_data_episodes_def by (auto split: option.splits)
  from assms(1) have fr: "\<And>a. a \<in> refs h \<Longrightarrow> a < next_ref h"
    and d: "distinct (episodes h)" and m: "mapping_ok h"
    unfolding handler_wf_def by blast+
  have hp: "heap ?h' = heap h" by (simp add: heap_PodcastItem_end)
  have f: "next_ref ?h' = next_ref h" "mapping ?h' = mapping h"
    by (simp_all add: PodcastItem_end_def Let_def split: option.splits)
  have eps: "set (episodes ?h') = set (episodes h)" "distinct (episodes ?h') = distinct (episodes h)"
    by (simp_all add: PodcastItem_end_def Let_def set_sort_reverse distinct_sort_reverse
        the_data_episodes_def split: option.splits)
  have dat: "\<And>l. data_episodes ?h' = Some l \<Longrightarrow> set l \<subseteq> refs h"
  proof -
    fix l assume l: "data_episodes ?h' = Some l"
    let ?srt = "sort_reverse (\<lambda>a. published (heap h a)) (the_data_episodes h)"
    from l have "l = ?srt \<or> l = slice_to (max_episodes h) ?srt"
      by (auto simp: PodcastItem_end_def Let_def split: option.splits if_splits)
    moreover have "set ?srt \<subseteq> refs h" by (simp add: set_sort_reverse refs_def)
    moreover have "set (slice_to (max_episodes h) ?srt) \<subseteq> set ?srt" by (rule set_slice_to)
    ultimately show "set l \<subseteq> refs h" by blast
  qed
  have r: "refs ?h' \<subseteq> refs h"
    using eps(1) dat by (auto simp: refs_def the_data_episodes_def split: option.splits)
  have c: "\<And>a. closed ?h' a = closed h a" by (simp add: closed_def hp)
  have 1: "mapping_ok ?h'" using m by (simp add: mapping_ok_def f)
  have 2: "distinct (episodes ?h')" using d eps by simp
  have 3: "\<forall>a \<in> refs ?h'. a < next_ref ?h'" using r fr unfolding f by blast
  have 4: "\<forall>a \<in> set (episodes ?h'). \<not> closed ?h' a \<longrightarrow>
      item_open (path_stack ?h') \<and> a = last (episodes ?h')"
    using cl unfolding c eps by (auto simp: refs_def)
  have 5: "\<forall>l. data_episodes ?h' = Some l \<longrightarrow> (\<forall>a \<in> set l. closed ?h' a)"
    using dat cl unfolding c by blast
  from 1 2 3 4 5 show ?thesis unfolding handler_wf_def by blast
qed

lemma handler_wf_step:
  assumes "step E ev h = Inr h'" and "handler_wf h"
  shows "handler_wf h'"
proof -
  from assms(2) have m: "mapping_ok h" by (simp add: handler_wf_def)
  from step_mapping_ok [OF assms(1) m] have m': "mapping_ok h'" .
  show ?thesis
  proof (cases ev)
    case (StartElement name at)
    let ?h1 = "h\<lparr>path_stack := path_stack h @ [name]\<rparr>"
    show ?thesis
    proof (cases "map_of (mapping h) (join ''/'' (path_stack h @ [name]))")
      case None
      with assms(1) StartElement have h': "h' = ?h1"
        by (simp add: startElement_def Let_def)
      show ?thesis
        by (rule handler_wf_shape [OF assms(2) same_shape_refl m'])
           (simp_all add: h' item_open_snoc)
    next
      case (Some t)
      with assms(1) StartElement obtain h2 where
        h2: "target_start E t at ?h1 = Inr h2"
        and h': "h' = (if WANT_TEXT t then h2\<lparr>text_buf := Some []\<rparr> else h2)"
        by (auto simp: startElement_def Let_def split: sum.splits)
      from target_start_effect [OF h2] show ?thesis
      proof
        assume a: "t = EpisodeItem \<and> h2 = EpisodeItem_start ?h1"
        with mapping_ok_mem [OF m Some] have "join ''/'' (path_stack h @ [name]) = item_path"
          using mem_EpisodeItem by blast
        from handler_wf_item_start [OF assms(2) this] a h' show ?thesis by simp
      next
        assume a: "t \<noteq> EpisodeItem \<and> same_shape ?h1 h2"
        then have s: "same_shape h (h2\<lparr>path_stack := path_stack h\<rparr>)"
          by (simp add: same_shape_def closed_def)
        from a have p: "path_stack h2 = path_stack h @ [name]"
          by (simp add: same_shape_def)
        show ?thesis
          by (rule handler_wf_shape [OF assms(2) s m'])
             (simp_all add: h' p item_open_snoc)
      qed
    qed
  next
    case (Characters c)
    with assms(1) have "h' = h \<or> (\<exists>l. h' = h\<lparr>text_buf := Some l\<rparr>)"
      by (auto simp: characters_def split: option.splits)
    then show ?thesis
    proof (elim disjE exE)
      assume "h' = h"
      with assms(2) show ?thesis by simp
    next
      fix l assume "h' = h\<lparr>text_buf := Some l\<rparr>"
      then show ?thesis
        by (intro handler_wf_shape [OF assms(2) same_shape_refl m']) simp_all
    qed
  next
    case (EndElement name)
    show ?thesis
    proof (cases "map_of (mapping h) (join ''/'' (path_stack h))")
      case None
      with assms(1) EndElement have h': "h' = h\<lparr>path_stack := butlast (path_stack h)\<rparr>"
        by (auto simp: endElement_def pop_path_def Let_def split: if_splits)
      from None lookup_item_path [OF m] have "join ''/'' (path_stack h) \<noteq> item_path"
        by auto
      then have "item_open (path_stack h) \<Longrightarrow> item_open (path_stack h')"
        unfolding h' by (simp add: item_open_butlast)
      then show ?thesis
        by (intro handler_wf_shape [OF assms(2) same_shape_refl m']) (simp_all add: h')
    next
      case (Some t)
      with assms(1) EndElement obtain h2 where
        h2: "target_end E (join ''/'' (path_stack h)) t (buffered_text h) h = Inr h2"
        and pp: "pop_path (h2\<lparr>text_buf := None\<rparr>) = Inr h'"
        by (auto simp: endElement_def Let_def buffered_text_def split: sum.splits)
      from pp have h': "h' = h2\<lparr>text_buf := None, path_stack := butlast (path_stack h2)\<rparr>"
        by (auto simp: pop_path_def split: if_splits)
      from target_end_effect [OF h2]
      consider (item) "t = EpisodeItem" "EpisodeItem_end E h = Inr h2"
        | (channel) "t = PodcastItem" "h2 = PodcastItem_end h"
        | (other) "t \<noteq> EpisodeItem" "same_shape h h2"
        by blast
      then show ?thesis
      proof cases
        case item
        from item(2) have "path_stack h2 = path_stack h"
          by (auto simp: EpisodeItem_end_def Let_def split: if_splits option.splits sum.splits)
        with handler_wf_item_end [OF assms(2) item(2)] h' show ?thesis by simp
      next
        case channel
        with mapping_ok_mem [OF m Some] have p: "join ''/'' (path_stack h) = channel_path"
          using mem_PodcastItem by blast
        have "path_stack (PodcastItem_end h) = path_stack h"
          by (simp add: PodcastItem_end_def Let_def split: option.splits)
        with handler_wf_channel_end [OF assms(2) p] channel(2) h' show ?thesis by simp
      next
        case other
        from other(1) Some lookup_item_path [OF m]
        have "join ''/'' (path_stack h) \<noteq> item_path" by auto
        moreover from other(2) have "path_stack h2 = path_stack h"
          by (simp add: same_shape_def)
        ultimately have "item_open (path_stack h) \<Longrightarrow> item_open (path_stack h')"
          unfolding h' by (simp add: item_open_butlast)
        then show ?thesis
          by (intro handler_wf_shape [OF assms(2) other(2) m']) (simp_all add: h')
      qed
    qed
  qed
qed

lemma handler_wf_run: "run E evs h = Inr h' \<Longrightarrow> handler_wf h \<Longrightarrow> handler_wf h'"
proof (induction evs arbitrary: h)
  case Nil
  then show ?case by simp
next
  case (Cons ev evs)
  then show ?case by (auto split: sum.splits dest: handler_wf_step)
qed

lemma handler_wf_init: "handler_wf (PodcastHandler MAPPING u n)"
  by (simp add: handler_wf_def mapping_ok_init)
     (simp add: PodcastHandler_def refs_def the_data_episodes_def)

lemma handler_wf_all_closed:
  assumes "handler_wf h" and "path_stack h = []"
  shows "\<forall>a \<in> refs h. closed h a"
  using assms not_item_open_Nil
  unfolding handler_wf_def refs_def the_data_episodes_def
  by (auto split: option.splits)

subsection \<open>Closed episodes\<close>

lemma closed_fields_finish:
  "finish_entry c e = Inr e' \<Longrightarrow> closed_fields e'"
  by (auto simp: finish_entry_def closed_fields_def Let_def split: option.splits if_splits)

lemma closed_fields_store_text: "closed_fields e \<Longrightarrow> closed_fields (store_text k v e)"
  by (cases k) (simp_all add: closed_fields_def)

lemma closed_fields_store_int: "closed_fields e \<Longrightarrow> closed_fields (store_int k v e)"
  by (cases k) (simp_all add: closed_fields_def)

lemma closed_fields_update_last:
  assumes "update_last f h = Inr h'" and "\<forall>a. closed_fields (heap h a)"
      and "\<And>e. closed_fields e \<Longrightarrow> closed_fields (f e)"
  shows "\<forall>a. closed_fields (heap h' a)"
  using assms by (auto simp: update_last_def split: if_splits)

lemma closed_fields_target_start:
  assumes "target_start E t at h = Inr h'" and "\<forall>a. closed_fields (heap h a)"
  shows "\<forall>a. closed_fields (heap h' a)"
proof (cases t)
  case EpisodeItem
  with assms show ?thesis
    by (auto simp: EpisodeItem_start_def closed_fields_def new_entry_def)
next
  case Enclosure
  with assms show ?thesis
    by (auto simp: Enclosure_start_def add_enclosure_def closed_fields_def Let_def
        split: option.splits if_splits)
next
  case (EpisodeGuid k f)
  with assms show ?thesis
    by (auto simp: EpisodeGuid_start_def set_guid_is_permalink_def update_last_def
        closed_fields_def split: if_splits)
next
  case (EpisodeAttrFromHref k f)
  with assms show ?thesis
    by (auto simp: EpisodeAttrFromHref_start_def set_episode_attr_def
        split: if_splits option.splits
        intro: closed_fields_update_last [rule_format] closed_fields_store_text)
next
  case (EpisodeAttrFromPaymentHref k f)
  with assms show ?thesis
    by (auto simp: EpisodeAttrFromPaymentHref_start_def EpisodeAttrFromHref_start_def
        set_episode_attr_def split: if_splits option.splits
        intro: closed_fields_update_last [rule_format] closed_fields_store_text)
qed (use assms in \<open>auto simp: RSS_start_def set_base_def PodcastAttrFromHref_start_def
        PodcastAttrFromPaymentHref_start_def set_podcast_attr_proj
        split: option.splits if_splits\<close>)

lemma closed_fields_target_end:
  assumes "target_end E p t s h = Inr h'" and "\<forall>a. closed_fields (heap h a)"
  shows "\<forall>a. closed_fields (heap h' a)"
proof (cases t)
  case EpisodeItem
  with assms show ?thesis
    by (auto simp: EpisodeItem_end_def Let_def split: if_splits option.splits sum.splits
        dest: closed_fields_finish)
next
  case PodcastItem
  with assms show ?thesis by (auto simp: heap_PodcastItem_end)
next
  case (EpisodeAttr k f)
  with assms show ?thesis
    by (auto simp: EpisodeAttr_end_def set_episode_attr_def
        intro: closed_fields_update_last [rule_format] closed_fields_store_text)
next
  case (EpisodeAttrInt k f)
  with assms show ?thesis
    by (auto simp: EpisodeAttrInt_end_def set_episode_attr_int_def
        intro: closed_fields_update_last [rule_format] closed_fields_store_int)
next
  case (EpisodeGuid k f)
  with assms show ?thesis
    by (auto simp: EpisodeGuid_end_def EpisodeAttr_end_def set_episode_attr_def Let_def
        update_last_def closed_fields_store_text split: if_splits)
qed (use assms in \<open>auto simp: PodcastAttr_end_def set_podcast_attr_proj\<close>)

lemma closed_fields_step:
  assumes "step E ev h = Inr h'" and "\<forall>a. closed_fields (heap h a)"
  shows "\<forall>a. closed_fields (heap h' a)"
proof (cases ev)
  case (StartElement name at)
  show ?thesis
  proof (cases "map_of (mapping h) (join ''/'' (path_stack h @ [name]))")
    case None
    with assms StartElement show ?thesis
      by (auto simp: startElement_def Let_def)
  next
    case (Some t)
    with assms StartElement obtain h2 where
      h2: "target_start E t at (h\<lparr>path_stack := path_stack h @ [name]\<rparr>) = Inr h2"
      and h': "h' = (if WANT_TEXT t then h2\<lparr>text_buf := Some []\<rparr> else h2)"
      by (auto simp: startElement_def Let_def split: sum.splits)
    from assms(2) have "\<forall>a. closed_fields (heap (h\<lparr>path_stack := path_stack h @ [name]\<rparr>) a)"
      by simp
    from closed_fields_target_start [OF h2 this] h' show ?thesis by simp
  qed
next
  case (Characters c)
  with assms show ?thesis
    by (auto simp: characters_def split: option.splits)
next
  case (EndElement name)
  show ?thesis
  proof (cases "map_of (mapping h) (join ''/'' (path_stack h))")
    case None
    with assms EndElement show ?thesis
      by (auto simp: endElement_def pop_path_def Let_def split: if_splits)
  next
    case (Some t)
    with assms EndElement obtain h2 where
      h2: "target_end E (join ''/'' (path_stack h)) t (buffered_text h) h = Inr h2"
      and h': "pop_path (h2\<lparr>text_buf := None\<rparr>) = Inr h'"
      by (auto simp: endElement_def Let_def buffered_text_def split: sum.splits)
    from h' have "heap h' = heap h2"
      by (auto simp: pop_path_def split: if_splits)
    with closed_fields_target_end [OF h2 assms(2)] show ?thesis by simp
  qed
qed

lemma closed_fields_run:
  "run E evs h = Inr h' \<Longrightarrow> \<forall>a. closed_fields (heap h a) \<Longrightarrow> \<forall>a. closed_fields (heap h' a)"
proof (induction evs arbitrary: h)
  case Nil
  then show ?case by simp
next
  case (Cons ev evs)
  from Cons.prems(1) obtain h1 where s: "step E ev h = Inr h1" and r: "run E evs h1 = Inr h'"
    by (auto split: sum.splits)
  from closed_fields_step [OF s Cons.prems(2)] Cons.IH [OF r] show ?case by blast
qed

lemma closed_fields_init: "\<forall>a. closed_fields (heap (PodcastHandler m u n) a)"
  by (simp add: PodcastHandler_def closed_fields_def new_entry_def)

lemma run_complete_closed:
  assumes "run E evs (PodcastHandler MAPPING u n) = Inr h" and "path_stack h = []"
  shows "\<forall>a \<in> set (the_data_episodes h).
           enclosures (heap h a) = None \<and> guid (heap h a) \<noteq> None \<and> url (heap h a) \<noteq> None
           \<and> title (heap h a) \<noteq> None"
proof
  fix a assume a: "a \<in> set (the_data_episodes h)"
  from handler_wf_run [OF assms(1) handler_wf_init] have "handler_wf h" .
  from handler_wf_all_closed [OF this assms(2)] a have "enclosures (heap h a) = None"
    by (simp add: refs_def closed_def)
  moreover from closed_fields_run [OF assms(1) closed_fields_init]
  have "closed_fields (heap h a)" by blast
  ultimately show "enclosures (heap h a) = None \<and> guid (heap h a) \<noteq> None
      \<and> url (heap h a) \<noteq> None \<and> title (heap h a) \<noteq> None"
    by (simp add: closed_fields_def)
qed

lemma EpisodeItem_end_keep:
  assumes "episodes h \<noteq> []"
      and "enclosures (heap h (last (episodes h))) = Some encs"
      and "encs \<noteq> [] \<or> is_video_link E (link (heap h (last (episodes h))))"
      and "guid_is_permalink (heap h (last (episodes h))) \<noteq> None"
  shows "\<exists>e'. EpisodeItem_end E h = Inr (h\<lparr>heap := (heap h)(last (episodes h) := e')\<rparr>)
     \<and> finish_entry (hd (if encs = [] then [synthetic_enclosure (link (heap h (last (episodes h))))]
                         else encs)) (heap h (last (episodes h))) = Inr e'"
  using assms
  by (auto simp: EpisodeItem_end_def finish_entry_def Let_def split: option.splits)

lemma EpisodeItem_end_drop:
  assumes "episodes h \<noteq> []"
      and "enclosures (heap h (last (episodes h))) = Some []"
      and "\<not> is_video_link E (link (heap h (last (episodes h))))"
  shows "EpisodeItem_end E h = Inr (h\<lparr>episodes := butlast (episodes h)\<rparr>)"
  using assms by (simp add: EpisodeItem_end_def Let_def)

lemma finish_entry_guid:
  "finish_entry c e = Inr e' \<Longrightarrow>
     url e' = Some (enc_url c)
     \<and> guid e' = (case guid e of None \<Rightarrow> url e' | Some g \<Rightarrow> Some g)"
  by (auto simp: finish_entry_def Let_def split: option.splits if_splits)

text \<open>
  C4, as the code has it.  An episode that item close keeps has a guid afterwards: when
  no guid was set during parsing it is the episode's url, taken from the enclosure; when
  one was set it is left as it is, whatever it is, the empty string included.  After a
  complete feed (the path stack is empty again) every episode of the document has a guid
  and a url.
\<close>

theorem C4_guid_present_defaults_to_url:
  "(episodes h \<noteq> [] \<and> enclosures (heap h (last (episodes h))) = Some encs
      \<and> (encs \<noteq> [] \<or> is_video_link E (link (heap h (last (episodes h)))))
      \<and> guid_is_permalink (heap h (last (episodes h))) \<noteq> None \<longrightarrow>
      (\<exists>h'. EpisodeItem_end E h = Inr h'
         \<and> url (heap h' (last (episodes h))) \<noteq> None
         \<and> (guid (heap h (last (episodes h))) = None \<longrightarrow>
              guid (heap h' (last (episodes h))) = url (heap h' (last (episodes h))))
         \<and> (\<forall>g. guid (heap h (last (episodes h))) = Some g \<longrightarrow>
              guid (heap h' (last (episodes h))) = Some g)))
   \<and> (run E evs (PodcastHandler MAPPING u n) = Inr hf \<and> path_stack hf = [] \<longrightarrow>
        parse E u evs n = Inr (data hf)
        \<and> list_all (\<lambda>e. guid e \<noteq> None \<and> url e \<noteq> None) (doc_episodes (data hf)))"
proof (intro conjI impI)
  assume a: "episodes h \<noteq> [] \<and> enclosures (heap h (last (episodes h))) = Some encs
      \<and> (encs \<noteq> [] \<or> is_video_link E (link (heap h (last (episodes h)))))
      \<and> guid_is_permalink (heap h (last (episodes h))) \<noteq> None"
  then obtain e' c where r: "EpisodeItem_end E h = Inr (h\<lparr>heap := (heap h)(last (episodes h) := e')\<rparr>)"
    and f: "finish_entry c (heap h (last (episodes h))) = Inr e'"
    using EpisodeItem_end_keep [of h encs E] by blast
  from finish_entry_guid [OF f] r
  show "\<exists>h'. EpisodeItem_end E h = Inr h'
         \<and> url (heap h' (last (episodes h))) \<noteq> None
         \<and> (guid (heap h (last (episodes h))) = None \<longrightarrow>
              guid (heap h' (last (episodes h))) = url (heap h' (last (episodes h))))
         \<and> (\<forall>g. guid (heap h (last (episodes h))) = Some g \<longrightarrow>
              guid (heap h' (last (episodes h))) = Some g)"
    by auto
next
  assume a: "run E evs (PodcastHandler MAPPING u n) = Inr hf \<and> path_stack hf = []"
  then show "parse E u evs n = Inr (data hf)" by (simp add: parse_def)
  from a run_complete_closed [of E evs u n hf]
  show "list_all (\<lambda>e. guid e \<noteq> None \<and> url e \<noteq> None) (doc_episodes (data hf))"
    by (simp add: data_def list_all_iff)
qed

lemma empty_guid_feed_run:
  "path_stack (final_handler (run sample_env empty_guid_feed
      (PodcastHandler MAPPING ''http://x/feed.xml'' 0))) = []
   \<and> map guid (episodes_of (parse sample_env ''http://x/feed.xml'' empty_guid_feed 0))
       = [Some []]
   \<and> map url (episodes_of (parse sample_env ''http://x/feed.xml'' empty_guid_feed 0))
       = [Some ''http://x/e.mp3'']"
  by code_simp

theorem C4_witness:
  "(\<exists>h'. EpisodeItem_end sample_env (item_handler [mp3_enclosure] [] None) = Inr h'
      \<and> guid (heap h' 0) = Some ''http://x/e.mp3'')
   \<and> (\<exists>h'. EpisodeItem_end sample_env (item_handler [mp3_enclosure] [] (Some ''g1'')) = Inr h'
      \<and> guid (heap h' 0) = Some ''g1'')
   \<and> (\<exists>hf. run sample_env empty_guid_feed (PodcastHandler MAPPING ''http://x/feed.xml'' 0)
             = Inr hf \<and> path_stack hf = []
         \<and> list_all (\<lambda>e. guid e \<noteq> None \<and> url e \<noteq> None) (doc_episodes (data hf)))"
proof -
  note c = C4_guid_present_defaults_to_url
  let ?h = "item_handler [mp3_enclosure] [] None"
  let ?k = "item_handler [mp3_enclosure] [] (Some ''g1'')"
  let ?r = "run sample_env empty_guid_feed (PodcastHandler MAPPING ''http://x/feed.xml'' 0)"
  have hl: "last (episodes ?h) = 0" "last (episodes ?k) = 0"
    by (simp_all add: item_handler_def)
  have hg: "guid (heap ?h (last (episodes ?h))) = None"
    "guid (heap ?k (last (episodes ?k))) = Some ''g1''"
    by (simp_all add: item_handler_def)
  have ph: "episodes ?h \<noteq> [] \<and> enclosures (heap ?h (last (episodes ?h))) = Some [mp3_enclosure]
      \<and> ([mp3_enclosure] \<noteq> [] \<or> is_video_link sample_env (link (heap ?h (last (episodes ?h)))))
      \<and> guid_is_permalink (heap ?h (last (episodes ?h))) \<noteq> None"
    by (simp add: item_handler_def new_entry_def)
  have pk: "episodes ?k \<noteq> [] \<and> enclosures (heap ?k (last (episodes ?k))) = Some [mp3_enclosure]
      \<and> ([mp3_enclosure] \<noteq> [] \<or> is_video_link sample_env (link (heap ?k (last (episodes ?k)))))
      \<and> guid_is_permalink (heap ?k (last (episodes ?k))) \<noteq> None"
    by (simp add: item_handler_def new_entry_def)
  from c [where h = ?h and E = sample_env and encs = "[mp3_enclosure]", THEN conjunct1,
      THEN mp, OF ph]
  obtain h1 where h1: "EpisodeItem_end sample_env ?h = Inr h1"
    and g1: "guid (heap h1 0) = url (heap h1 0)"
    unfolding hl using hg(1) unfolding hl by blast
  from c [where h = ?k and E = sample_env and encs = "[mp3_enclosure]", THEN conjunct1,
      THEN mp, OF pk]
  obtain h2 where h2: "EpisodeItem_end sample_env ?k = Inr h2"
    and g2: "guid (heap h2 0) = Some ''g1''"
    unfolding hl using hg(2) unfolding hl by blast
  from EpisodeItem_end_first_enclosure [of ?h mp3_enclosure "[]" sample_env] ph h1
  have "url (heap h1 0) = Some ''http://x/e.mp3''"
    unfolding hl by (auto simp: mp3_enclosure_def)
  with h1 g1 have 1: "\<exists>h'. EpisodeItem_end sample_env ?h = Inr h'
      \<and> guid (heap h' 0) = Some ''http://x/e.mp3''"
    by simp
  from h2 g2 have 2: "\<exists>h'. EpisodeItem_end sample_env ?k = Inr h'
      \<and> guid (heap h' 0) = Some ''g1''"
    by (intro exI conjI)
  from empty_guid_feed_run have "map guid (episodes_of (parse sample_env ''http://x/feed.xml''
      empty_guid_feed 0)) \<noteq> []"
    by simp
  then obtain hf where hf: "?r = Inr hf"
    by (cases ?r) (simp_all add: parse_def episodes_of_def)
  with empty_guid_feed_run have ps: "path_stack hf = []"
    by (simp add: final_handler_def)
  from c [where E = sample_env and hf = hf, THEN conjunct2, THEN mp, OF conjI, OF hf ps]
  have "list_all (\<lambda>e. guid e \<noteq> None \<and> url e \<noteq> None) (doc_episodes (data hf))"
    by (rule conjunct2)
  with hf ps have 3: "\<exists>hf. ?r = Inr hf \<and> path_stack hf = []
         \<and> list_all (\<lambda>e. guid e \<noteq> None \<and> url e \<noteq> None) (doc_episodes (data hf))"
    by (intro exI conjI)
  show ?thesis by (intro conjI 1 2 3)
qed

text \<open>
  C4 as stated fails: an item with an empty \<^verbatim>\<open><guid></guid>\<close> and an enclosure is kept,
  and its guid is the empty string.
\<close>

theorem C4_counterexample:
  "map guid (episodes_of (parse sample_env ''http://x/feed.xml'' empty_guid_feed 0))
     = [Some []]"
  using empty_guid_feed_run by (rule conjunct2 [THEN conjunct1])

subsection \<open>Item close\<close>

lemma endElement_EpisodeItem:
  assumes "map_of (mapping h) (current_path h) = Some EpisodeItem"
      and "path_stack h \<noteq> []" and "EpisodeItem_end E h = Inr h2"
  shows "endElement E name h =
           Inr (h2\<lparr>text_buf := None, path_stack := butlast (path_stack h)\<rparr>)"
proof -
  from assms(3) have "path_stack h2 = path_stack h"
    by (auto simp: EpisodeItem_end_def Let_def split: if_splits option.splits sum.splits)
  with assms show ?thesis
    by (simp add: endElement_def current_path_def pop_path_def Let_def)
qed

lemma step_closed_origin:
  assumes "step E ev h = Inr h'" and "a \<in> refs h'" and "closed h' a"
  shows "(a \<in> refs h \<and> closed h a)
       \<or> (is_item_close ev h \<and> close_keeps E h \<and> last (episodes h) = a)"
proof (cases ev)
  case (StartElement name at)
  let ?h1 = "h\<lparr>path_stack := path_stack h @ [name]\<rparr>"
  have r1: "refs ?h1 = refs h" "closed ?h1 = closed h"
    by (simp_all add: refs_def the_data_episodes_frame closed_def fun_eq_iff)
  show ?thesis
  proof (cases "map_of (mapping h) (join ''/'' (path_stack h @ [name]))")
    case None
    with assms StartElement r1 show ?thesis
      by (auto simp: startElement_def Let_def)
  next
    case (Some t)
    with assms(1) StartElement obtain h2 where
      h2: "target_start E t at ?h1 = Inr h2"
      and h': "h' = (if WANT_TEXT t then h2\<lparr>text_buf := Some []\<rparr> else h2)"
      by (auto simp: startElement_def Let_def split: sum.splits)
    from h' have e: "refs h' = refs h2" "closed h' = closed h2"
      by (simp_all add: refs_def the_data_episodes_frame closed_def fun_eq_iff)
    from target_start_effect [OF h2] show ?thesis
    proof
      assume s: "t = EpisodeItem \<and> h2 = EpisodeItem_start ?h1"
      then have "refs h2 \<subseteq> insert (next_ref h) (refs h)"
        and "\<not> closed h2 (next_ref h)"
        and "\<And>b. b \<noteq> next_ref h \<Longrightarrow> closed h2 b = closed h b"
        by (auto simp: EpisodeItem_start_def refs_def the_data_episodes_def closed_def
            new_entry_def split: option.splits)
      note f = this
      from assms(2,3) e have a2: "a \<in> refs h2" "closed h2 a" by simp_all
      with f(2) have "a \<noteq> next_ref h" by auto
      with a2 f(1,3) have "a \<in> refs h \<and> closed h a" by auto
      then show ?thesis ..
    next
      assume ss: "t \<noteq> EpisodeItem \<and> same_shape ?h1 h2"
      then have "episodes h2 = episodes h" "data_episodes h2 = data_episodes h"
        by (simp_all add: same_shape_def)
      then have "refs h2 = refs h" by (rule refs_eq)
      moreover from ss have "closed h2 = closed h"
        by (simp add: same_shape_def closed_def fun_eq_iff)
      ultimately show ?thesis using assms(2,3) e by simp
    qed
  qed
next
  case (Characters c)
  with assms show ?thesis
    by (auto simp: characters_def refs_def the_data_episodes_frame closed_def
        split: option.splits)
next
  case (EndElement name)
  show ?thesis
  proof (cases "map_of (mapping h) (join ''/'' (path_stack h))")
    case None
    with assms EndElement show ?thesis
      by (auto simp: endElement_def pop_path_def Let_def refs_def the_data_episodes_frame
          closed_def split: if_splits)
  next
    case (Some t)
    with assms(1) EndElement obtain h2 where
      h2: "target_end E (join ''/'' (path_stack h)) t (buffered_text h) h = Inr h2"
      and pp: "pop_path (h2\<lparr>text_buf := None\<rparr>) = Inr h'"
      by (auto simp: endElement_def Let_def buffered_text_def split: sum.splits)
    from pp have e: "refs h' = refs h2" "closed h' = closed h2"
      by (auto simp: pop_path_def refs_def the_data_episodes_frame closed_def fun_eq_iff
          split: if_splits)
    from target_end_effect [OF h2]
    consider (item) "t = EpisodeItem" "EpisodeItem_end E h = Inr h2"
      | (channel) "t = PodcastItem" "h2 = PodcastItem_end h"
      | (other) "same_shape h h2"
      by blast
    then show ?thesis
    proof cases
      case item
      from item(1) Some EndElement have ic: "is_item_close ev h"
        by (simp add: is_item_close_def current_path_def)
      from item(2) have ne: "episodes h \<noteq> []"
        by (auto simp: EpisodeItem_end_def split: if_splits)
      from item(2) consider
          (drop) "episodes h2 = butlast (episodes h)" "heap h2 = heap h"
            "data_episodes h2 = data_episodes h"
        | (keep) "episodes h2 = episodes h" "data_episodes h2 = data_episodes h"
            "close_keeps E h" "\<And>b. b \<noteq> last (episodes h) \<Longrightarrow> heap h2 b = heap h b"
        by (auto simp: EpisodeItem_end_def Let_def close_keeps_def
            split: if_splits option.splits sum.splits)
      then show ?thesis
      proof cases
        case drop
        then have "refs h2 \<subseteq> refs h" "closed h2 = closed h"
          by (auto simp: refs_def the_data_episodes_def closed_def fun_eq_iff
              dest: in_set_butlastD split: option.splits)
        with assms(2,3) e show ?thesis by auto
      next
        case keep
        from keep(1,2) have rr: "refs h2 = refs h" by (rule refs_eq)
        show ?thesis
        proof (cases "a = last (episodes h)")
          case True
          with ic keep(3) show ?thesis by simp
        next
          case False
          with keep(4) have "closed h2 a = closed h a" by (simp add: closed_def)
          with assms(2,3) e rr show ?thesis by simp
        qed
      qed
    next
      case channel
      have "closed h2 = closed h"
        unfolding channel(2) by (simp add: closed_def fun_eq_iff heap_PodcastItem_end)
      moreover have "refs h2 \<subseteq> refs h"
      proof -
        let ?srt = "sort_reverse (\<lambda>a. published (heap h a)) (the_data_episodes h)"
        have "set ?srt \<subseteq> refs h" by (simp add: set_sort_reverse refs_def)
        moreover have "set (slice_to (max_episodes h) ?srt) \<subseteq> set ?srt" by (rule set_slice_to)
        ultimately show ?thesis
          unfolding channel(2)
          by (auto simp: PodcastItem_end_def Let_def refs_def the_data_episodes_def
              set_sort_reverse split: option.splits if_splits)
      qed
      ultimately show ?thesis using assms(2,3) e by auto
    next
      case other
      then have "episodes h2 = episodes h" "data_episodes h2 = data_episodes h"
        by (simp_all add: same_shape_def)
      then have "refs h2 = refs h" by (rule refs_eq)
      moreover from other have "closed h2 = closed h"
        by (simp add: same_shape_def fun_eq_iff)
      ultimately show ?thesis using assms(2,3) e by simp
    qed
  qed
qed

lemma run_closed_origin:
  "run E evs h = Inr h' \<Longrightarrow> a \<in> refs h' \<Longrightarrow> closed h' a \<Longrightarrow>
     (a \<in> refs h \<and> closed h a) \<or> kept_at_close E evs h a"
proof (induction evs arbitrary: h)
  case Nil
  then show ?case by simp
next
  case (Cons ev evs)
  from Cons.prems(1) obtain h1 where s: "step E ev h = Inr h1" and r: "run E evs h1 = Inr h'"
    by (auto split: sum.splits)
  from Cons.IH [OF r Cons.prems(2,3)]
  show ?case
  proof
    assume "a \<in> refs h1 \<and> closed h1 a"
    with step_closed_origin [OF s, of a] show ?thesis by auto
  next
    assume "kept_at_close E evs h1 a"
    with s show ?thesis by simp
  qed
qed

lemma run_complete_kept:
  assumes "run E evs (PodcastHandler MAPPING u n) = Inr h" and "path_stack h = []"
      and "a \<in> set (the_data_episodes h)"
  shows "kept_at_close E evs (PodcastHandler MAPPING u n) a"
proof -
  from handler_wf_run [OF assms(1) handler_wf_init] have "handler_wf h" .
  from handler_wf_all_closed [OF this assms(2)] assms(3)
  have "a \<in> refs h" "closed h a" by (simp_all add: refs_def)
  from run_closed_origin [OF assms(1) this]
  show ?thesis by (auto simp: refs_def PodcastHandler_def the_data_episodes_def)
qed

lemma finish_entry_fields:
  "finish_entry c e = Inr e' \<Longrightarrow>
     url e' = Some (enc_url c) \<and> file_size e' = enc_file_size c
     \<and> mime_type e' = enc_mime_type c \<and> enclosures e' = None"
  by (auto simp: finish_entry_def Let_def split: option.splits if_splits)

lemma target_start_max:
  "target_start E t at h = Inr h' \<Longrightarrow> max_episodes h' = max_episodes h"
  by (cases t)
     (auto simp: RSS_start_def set_base_def PodcastAttrFromHref_start_def
        PodcastAttrFromPaymentHref_start_def EpisodeItem_start_def EpisodeGuid_start_def
        set_guid_is_permalink_def EpisodeAttrFromHref_start_def
        EpisodeAttrFromPaymentHref_start_def set_episode_attr_def Enclosure_start_def
        set_podcast_attr_proj
        dest!: add_enclosure_update_last dest: update_last_proj(6)
        split: option.splits if_splits)

lemma target_end_max:
  "target_end E p t s h = Inr h' \<Longrightarrow> max_episodes h' = max_episodes h"
  by (cases t)
     (auto simp: PodcastItem_end_def PodcastAttr_end_def EpisodeItem_end_def EpisodeAttr_end_def
        EpisodeAttrInt_end_def EpisodeGuid_end_def set_episode_attr_def
        set_episode_attr_int_def Let_def set_podcast_attr_proj
        dest: update_last_proj(6)
        split: option.splits if_splits sum.splits)

lemma step_max_episodes:
  "step E ev h = Inr h' \<Longrightarrow> max_episodes h' = max_episodes h"
  by (cases ev)
     (auto simp: startElement_def endElement_def characters_def pop_path_def Let_def
        dest: target_start_max target_end_max
        split: option.splits if_splits sum.splits)

lemma step_data_episodes:
  assumes "step E ev h = Inr h'" and "\<not> is_channel_close ev h"
  shows "data_episodes h' = data_episodes h"
proof (cases ev)
  case (StartElement name at)
  let ?h1 = "h\<lparr>path_stack := path_stack h @ [name]\<rparr>"
  show ?thesis
  proof (cases "map_of (mapping h) (join ''/'' (path_stack h @ [name]))")
    case None
    with assms StartElement show ?thesis
      by (auto simp: startElement_def Let_def)
  next
    case (Some t)
    with assms(1) StartElement obtain h2 where
      h2: "target_start E t at ?h1 = Inr h2"
      and h': "h' = (if WANT_TEXT t then h2\<lparr>text_buf := Some []\<rparr> else h2)"
      by (auto simp: startElement_def Let_def split: sum.splits)
    from target_start_effect [OF h2] have "data_episodes h2 = data_episodes h"
      by (auto simp: EpisodeItem_start_def same_shape_def)
    with h' show ?thesis by simp
  qed
next
  case (Characters c)
  with assms show ?thesis by (auto simp: characters_def split: option.splits)
next
  case (EndElement name)
  show ?thesis
  proof (cases "map_of (mapping h) (join ''/'' (path_stack h))")
    case None
    with assms EndElement show ?thesis
      by (auto simp: endElement_def pop_path_def Let_def split: if_splits)
  next
    case (Some t)
    with assms(1) EndElement obtain h2 where
      h2: "target_end E (join ''/'' (path_stack h)) t (buffered_text h) h = Inr h2"
      and pp: "pop_path (h2\<lparr>text_buf := None\<rparr>) = Inr h'"
      by (auto simp: endElement_def Let_def buffered_text_def split: sum.splits)
    from pp have e: "data_episodes h' = data_episodes h2"
      by (auto simp: pop_path_def split: if_splits)
    from Some assms(2) EndElement have nt: "t \<noteq> PodcastItem"
      by (auto simp: is_channel_close_def current_path_def)
    from target_end_effect [OF h2] nt have "data_episodes h2 = data_episodes h"
      by (auto simp: same_shape_def EpisodeItem_end_def Let_def
          split: if_splits option.splits sum.splits)
    with e show ?thesis by simp
  qed
qed

lemma step_channel_close:
  assumes "step E ev h = Inr h'" and "is_channel_close ev h"
  shows "h' = (PodcastItem_end h)\<lparr>text_buf := None, path_stack := butlast (path_stack h)\<rparr>"
  using assms
  by (cases ev)
     (auto simp: is_channel_close_def current_path_def endElement_def pop_path_def Let_def
        PodcastItem_end_def split: option.splits if_splits)

lemma step_unlimited:
  assumes "step E ev h = Inr h'" and "max_episodes h = 0" and "data_episodes h = None"
  shows "max_episodes h' = 0 \<and> data_episodes h' = None"
proof (cases "is_channel_close ev h")
  case True
  from step_channel_close [OF assms(1) True] assms(2,3) show ?thesis
    by (simp add: PodcastItem_end_def Let_def)
next
  case False
  from step_data_episodes [OF assms(1) False] step_max_episodes [OF assms(1)] assms(2,3)
  show ?thesis by simp
qed

lemma run_unlimited:
  "run E evs h = Inr hf \<Longrightarrow> max_episodes h = 0 \<Longrightarrow> data_episodes h = None \<Longrightarrow>
     the_data_episodes hf = episodes hf"
proof (induction evs arbitrary: h)
  case Nil
  then show ?case by (simp add: the_data_episodes_def)
next
  case (Cons ev evs)
  from Cons.prems(1) obtain h1 where s: "step E ev h = Inr h1" and r: "run E evs h1 = Inr hf"
    by (auto split: sum.splits)
  from step_unlimited [OF s Cons.prems(2,3)] Cons.IH [OF r] show ?case by simp
qed

lemma step_keeps_closed:
  assumes "step E ev h = Inr h'" and "handler_wf h" and "a \<in> set (episodes h)"
      and "closed h a"
  shows "a \<in> set (episodes h') \<and> closed h' a"
proof (cases ev)
  case (StartElement name at)
  let ?h1 = "h\<lparr>path_stack := path_stack h @ [name]\<rparr>"
  show ?thesis
  proof (cases "map_of (mapping h) (join ''/'' (path_stack h @ [name]))")
    case None
    with assms StartElement show ?thesis
      by (auto simp: startElement_def Let_def closed_def)
  next
    case (Some t)
    with assms(1) StartElement obtain h2 where
      h2: "target_start E t at ?h1 = Inr h2"
      and h': "h' = (if WANT_TEXT t then h2\<lparr>text_buf := Some []\<rparr> else h2)"
      by (auto simp: startElement_def Let_def split: sum.splits)
    from h' have e: "episodes h' = episodes h2" "closed h' = closed h2"
      by (simp_all add: closed_def fun_eq_iff)
    from target_start_effect [OF h2] have "a \<in> set (episodes h2) \<and> closed h2 a"
    proof
      assume s: "t = EpisodeItem \<and> h2 = EpisodeItem_start ?h1"
      from assms(2,3) have "a < next_ref h" by (simp add: handler_wf_def refs_def)
      with s assms(3,4) show ?thesis
        by (simp add: EpisodeItem_start_def closed_def)
    next
      assume ss: "t \<noteq> EpisodeItem \<and> same_shape ?h1 h2"
      with assms(3,4) show ?thesis
        by (simp add: same_shape_def closed_def)
    qed
    with e show ?thesis by simp
  qed
next
  case (Characters c)
  with assms show ?thesis by (auto simp: characters_def closed_def split: option.splits)
next
  case (EndElement name)
  show ?thesis
  proof (cases "map_of (mapping h) (join ''/'' (path_stack h))")
    case None
    with assms EndElement show ?thesis
      by (auto simp: endElement_def pop_path_def Let_def closed_def split: if_splits)
  next
    case (Some t)
    with assms(1) EndElement obtain h2 where
      h2: "target_end E (join ''/'' (path_stack h)) t (buffered_text h) h = Inr h2"
      and pp: "pop_path (h2\<lparr>text_buf := None\<rparr>) = Inr h'"
      by (auto simp: endElement_def Let_def buffered_text_def split: sum.splits)
    from pp have e: "episodes h' = episodes h2" "closed h' = closed h2"
      by (auto simp: pop_path_def closed_def fun_eq_iff split: if_splits)
    from target_end_effect [OF h2]
    consider (item) "t = EpisodeItem" "EpisodeItem_end E h = Inr h2"
      | (channel) "t = PodcastItem" "h2 = PodcastItem_end h"
      | (other) "same_shape h h2"
      by blast
    then have "a \<in> set (episodes h2) \<and> closed h2 a"
    proof cases
      case item
      from item(2) have ne: "episodes h \<noteq> []"
        by (auto simp: EpisodeItem_end_def split: if_splits)
      from item(2) assms(4) have nl: "a \<noteq> last (episodes h)"
        by (auto simp: EpisodeItem_end_def Let_def closed_def split: if_splits option.splits)
      from ne have "episodes h = butlast (episodes h) @ [last (episodes h)]" by simp
      then have "set (episodes h) = insert (last (episodes h)) (set (butlast (episodes h)))"
        by (metis list.simps(15) rotate1.simps(2) set_rotate1)
      with assms(3) nl have ab: "a \<in> set (butlast (episodes h))" by simp
      from item(2) consider
          (drop) "episodes h2 = butlast (episodes h)" "heap h2 = heap h"
        | (keep) "episodes h2 = episodes h"
            "\<And>b. b \<noteq> last (episodes h) \<Longrightarrow> heap h2 b = heap h b"
        by (auto simp: EpisodeItem_end_def Let_def
            split: if_splits option.splits sum.splits)
      then show ?thesis
      proof cases
        case drop
        with ab assms(4) show ?thesis by (simp add: closed_def)
      next
        case keep
        from keep(2) [OF nl] keep(1) assms(3,4) show ?thesis by (simp add: closed_def)
      qed
    next
      case channel
      have "set (episodes h2) = set (episodes h)"
        unfolding channel(2)
        by (simp add: PodcastItem_end_def Let_def set_sort_reverse the_data_episodes_def
            split: option.splits)
      with assms(3,4) show ?thesis
        unfolding channel(2) by (simp add: closed_def heap_PodcastItem_end)
    next
      case other
      with assms(3,4) show ?thesis by (simp add: same_shape_def)
    qed
    with e show ?thesis by simp
  qed
qed

lemma step_item_close_keeps:
  assumes "step E ev h = Inr h'" and "is_item_close ev h" and "close_keeps E h"
  shows "last (episodes h) \<in> set (episodes h') \<and> closed h' (last (episodes h))"
proof -
  from assms(2) obtain name where ev: "ev = EndElement name"
    and m: "map_of (mapping h) (current_path h) = Some EpisodeItem"
    by (cases ev) (simp_all add: is_item_close_def)
  from assms(3) obtain encs where ne: "episodes h \<noteq> []"
    and en: "enclosures (heap h (last (episodes h))) = Some encs"
    and k: "encs \<noteq> [] \<or> is_video_link E (link (heap h (last (episodes h))))"
    by (auto simp: close_keeps_def split: option.splits)
  from assms(1) ev m obtain h2 where h2: "EpisodeItem_end E h = Inr h2"
    and pp: "pop_path (h2\<lparr>text_buf := None\<rparr>) = Inr h'"
    by (auto simp: endElement_def current_path_def Let_def split: sum.splits)
  from h2 ne en k obtain e' where
    f: "finish_entry (hd (if encs = [] then encs @ [synthetic_enclosure
            (link (heap h (last (episodes h))))] else encs)) (heap h (last (episodes h))) = Inr e'"
    and h2': "h2 = h\<lparr>heap := (heap h)(last (episodes h) := e')\<rparr>"
    by (auto simp: EpisodeItem_end_def Let_def split: sum.splits if_splits)
  from finish_entry_fields [OF f] have "enclosures e' = None" by simp
  with h2' pp ne show ?thesis
    by (auto simp: pop_path_def closed_def split: if_splits)
qed

lemma run_keeps_closed:
  "run E evs h = Inr hf \<Longrightarrow> handler_wf h \<Longrightarrow> a \<in> set (episodes h) \<Longrightarrow> closed h a \<Longrightarrow>
     a \<in> set (episodes hf) \<and> closed hf a"
proof (induction evs arbitrary: h)
  case Nil
  then show ?case by simp
next
  case (Cons ev evs)
  from Cons.prems(1) obtain h1 where s: "step E ev h = Inr h1" and r: "run E evs h1 = Inr hf"
    by (auto split: sum.splits)
  from step_keeps_closed [OF s Cons.prems(2,3,4)] have "a \<in> set (episodes h1)" "closed h1 a"
    by simp_all
  from Cons.IH [OF r handler_wf_step [OF s Cons.prems(2)] this] show ?case .
qed

lemma run_kept_stays:
  "run E evs h = Inr hf \<Longrightarrow> handler_wf h \<Longrightarrow> kept_at_close E evs h a \<Longrightarrow>
     a \<in> set (episodes hf) \<and> closed hf a"
proof (induction evs arbitrary: h)
  case Nil
  then show ?case by simp
next
  case (Cons ev evs)
  from Cons.prems(1) obtain h1 where s: "step E ev h = Inr h1" and r: "run E evs h1 = Inr hf"
    by (auto split: sum.splits)
  note w1 = handler_wf_step [OF s Cons.prems(2)]
  from Cons.prems(3) s
  consider (here) "is_item_close ev h" "close_keeps E h" "last (episodes h) = a"
    | (later) "kept_at_close E evs h1 a"
    by auto
  then show ?case
  proof cases
    case here
    from step_item_close_keeps [OF s here(1,2)] here(3)
    have "a \<in> set (episodes h1)" "closed h1 a" by simp_all
    from run_keeps_closed [OF r w1 this] show ?thesis .
  next
    case later
    from Cons.IH [OF r w1 later] show ?thesis .
  qed
qed

text \<open>
  C1, as the code has it.  At its item-close event an episode stays in the in-progress
  list if and only if its enclosure list is non-empty or its link is a video link for
  one of the two classifiers (then the synthetic enclosure gives it the link as url, the
  size \<open>-1\<close> and the type \<^verbatim>\<open>video/mp4\<close>); when neither holds the episode is removed
  from the list, its dictionary is left as it was, and nothing is raised.  Every episode
  of the document returned for a complete feed passed that test at its item-close event.
  Every episode that passed the test stays in the in-progress list \<^verbatim>\<open>handler.episodes\<close>
  to the end of the parse, whatever the limit.  With \<open>max_episodes = 0\<close> the document's
  list is that list, so an episode is in the document of a complete feed if and only if
  it passed the test; with another limit channel close may cut kept episodes off.
\<close>

theorem C1_kept_iff_enclosure_or_video_link:
  "(map_of (mapping h) (current_path h) = Some EpisodeItem \<and> path_stack h \<noteq> []
      \<and> episodes h \<noteq> [] \<and> distinct (episodes h)
      \<and> enclosures (heap h (last (episodes h))) = Some encs
      \<and> guid_is_permalink (heap h (last (episodes h))) \<noteq> None \<longrightarrow>
      (\<exists>h'. endElement E name h = Inr h'
         \<and> (last (episodes h) \<in> set (episodes h') \<longleftrightarrow>
              encs \<noteq> [] \<or> is_video_link E (link (heap h (last (episodes h)))))
         \<and> (encs = [] \<and> is_video_link E (link (heap h (last (episodes h)))) \<longrightarrow>
              url (heap h' (last (episodes h))) = Some (link (heap h (last (episodes h))))
              \<and> file_size (heap h' (last (episodes h))) = - 1
              \<and> mime_type (heap h' (last (episodes h))) = ''video/mp4'')
         \<and> (encs = [] \<and> \<not> is_video_link E (link (heap h (last (episodes h)))) \<longrightarrow>
              episodes h' = butlast (episodes h) \<and> heap h' = heap h)))
   \<and> (run E evs (PodcastHandler MAPPING u n) = Inr hf \<and> path_stack hf = [] \<longrightarrow>
        parse E u evs n = Inr (data hf)
        \<and> (\<forall>a \<in> set (the_data_episodes hf).
              kept_at_close E evs (PodcastHandler MAPPING u n) a))
   \<and> (run E evs (PodcastHandler MAPPING u n) = Inr hf \<longrightarrow>
        (\<forall>a. kept_at_close E evs (PodcastHandler MAPPING u n) a \<longrightarrow>
               a \<in> set (episodes hf)))
   \<and> (run E evs (PodcastHandler MAPPING u 0) = Inr hf \<and> path_stack hf = [] \<longrightarrow>
        parse E u evs 0 = Inr (data hf)
        \<and> (\<forall>a. a \<in> set (the_data_episodes hf) \<longleftrightarrow>
                kept_at_close E evs (PodcastHandler MAPPING u 0) a))"
proof -
  let ?a = "last (episodes h)"
  let ?v = "is_video_link E (link (heap h ?a))"
  have c1: "map_of (mapping h) (current_path h) = Some EpisodeItem \<and> path_stack h \<noteq> []
      \<and> episodes h \<noteq> [] \<and> distinct (episodes h)
      \<and> enclosures (heap h ?a) = Some encs
      \<and> guid_is_permalink (heap h ?a) \<noteq> None \<longrightarrow>
      (\<exists>h'. endElement E name h = Inr h'
         \<and> (?a \<in> set (episodes h') \<longleftrightarrow> encs \<noteq> [] \<or> ?v)
         \<and> (encs = [] \<and> ?v \<longrightarrow>
              url (heap h' ?a) = Some (link (heap h ?a))
              \<and> file_size (heap h' ?a) = - 1
              \<and> mime_type (heap h' ?a) = ''video/mp4'')
         \<and> (encs = [] \<and> \<not> ?v \<longrightarrow> episodes h' = butlast (episodes h) \<and> heap h' = heap h))"
  proof
    assume a: "map_of (mapping h) (current_path h) = Some EpisodeItem \<and> path_stack h \<noteq> []
      \<and> episodes h \<noteq> [] \<and> distinct (episodes h)
      \<and> enclosures (heap h ?a) = Some encs
      \<and> guid_is_permalink (heap h ?a) \<noteq> None"
    show "\<exists>h'. endElement E name h = Inr h'
         \<and> (?a \<in> set (episodes h') \<longleftrightarrow> encs \<noteq> [] \<or> ?v)
         \<and> (encs = [] \<and> ?v \<longrightarrow>
              url (heap h' ?a) = Some (link (heap h ?a))
              \<and> file_size (heap h' ?a) = - 1
              \<and> mime_type (heap h' ?a) = ''video/mp4'')
         \<and> (encs = [] \<and> \<not> ?v \<longrightarrow> episodes h' = butlast (episodes h) \<and> heap h' = heap h)"
    proof (cases "encs \<noteq> [] \<or> ?v")
      case True
      with a obtain e' where
        r: "EpisodeItem_end E h = Inr (h\<lparr>heap := (heap h)(?a := e')\<rparr>)"
        and f: "finish_entry (hd (if encs = [] then [synthetic_enclosure (link (heap h ?a))]
                                  else encs)) (heap h ?a) = Inr e'"
        using EpisodeItem_end_keep [of h encs E] by blast
      let ?h' = "h\<lparr>heap := (heap h)(?a := e'), text_buf := None,
                   path_stack := butlast (path_stack h)\<rparr>"
      from a r have e: "endElement E name h = Inr ?h'"
        by (simp add: endElement_EpisodeItem)
      from a have m: "?a \<in> set (episodes ?h')" by simp
      have s: "encs = [] \<longrightarrow> url (heap ?h' ?a) = Some (link (heap h ?a))
                \<and> file_size (heap ?h' ?a) = - 1 \<and> mime_type (heap ?h' ?a) = ''video/mp4''"
        using finish_entry_fields [OF f] by (simp add: synthetic_enclosure_def)
      from e m s True show ?thesis by blast
    next
      case False
      then have n: "encs = []" "\<not> ?v" by simp_all
      with a have r: "EpisodeItem_end E h = Inr (h\<lparr>episodes := butlast (episodes h)\<rparr>)"
        by (simp add: EpisodeItem_end_drop)
      let ?h' = "h\<lparr>episodes := butlast (episodes h), text_buf := None,
                   path_stack := butlast (path_stack h)\<rparr>"
      from a r have e: "endElement E name h = Inr ?h'"
        by (simp add: endElement_EpisodeItem)
      from a have "?a \<notin> set (episodes ?h')"
        by (simp add: last_notin_butlast)
      with e n show ?thesis by auto
    qed
  qed
  have c2: "run E evs (PodcastHandler MAPPING u n) = Inr hf \<and> path_stack hf = [] \<longrightarrow>
        parse E u evs n = Inr (data hf)
        \<and> (\<forall>a \<in> set (the_data_episodes hf).
              kept_at_close E evs (PodcastHandler MAPPING u n) a)"
  proof (intro impI conjI)
    assume a: "run E evs (PodcastHandler MAPPING u n) = Inr hf \<and> path_stack hf = []"
    then show "parse E u evs n = Inr (data hf)" by (simp add: parse_def)
    from a show "\<forall>a \<in> set (the_data_episodes hf).
        kept_at_close E evs (PodcastHandler MAPPING u n) a"
      using run_complete_kept by blast
  qed
  have c3: "run E evs (PodcastHandler MAPPING u n) = Inr hf \<longrightarrow>
        (\<forall>a. kept_at_close E evs (PodcastHandler MAPPING u n) a \<longrightarrow>
               a \<in> set (episodes hf))"
  proof (intro impI allI)
    fix a
    assume r: "run E evs (PodcastHandler MAPPING u n) = Inr hf"
      and k: "kept_at_close E evs (PodcastHandler MAPPING u n) a"
    from run_kept_stays [OF r handler_wf_init k] show "a \<in> set (episodes hf)"
      by (rule conjunct1)
  qed
  have c4: "run E evs (PodcastHandler MAPPING u 0) = Inr hf \<and> path_stack hf = [] \<longrightarrow>
        parse E u evs 0 = Inr (data hf)
        \<and> (\<forall>a. a \<in> set (the_data_episodes hf) \<longleftrightarrow>
                kept_at_close E evs (PodcastHandler MAPPING u 0) a)"
  proof (intro impI conjI allI)
    assume a: "run E evs (PodcastHandler MAPPING u 0) = Inr hf \<and> path_stack hf = []"
    then have r: "run E evs (PodcastHandler MAPPING u 0) = Inr hf" and p: "path_stack hf = []"
      by simp_all
    from r show "parse E u evs 0 = Inr (data hf)" by (simp add: parse_def)
    have "max_episodes (PodcastHandler MAPPING u 0) = 0"
      "data_episodes (PodcastHandler MAPPING u 0) = None"
      by (simp_all add: PodcastHandler_def)
    from run_unlimited [OF r this] have d: "the_data_episodes hf = episodes hf" .
    fix b
    show "b \<in> set (the_data_episodes hf) \<longleftrightarrow>
            kept_at_close E evs (PodcastHandler MAPPING u 0) b"
    proof
      assume "b \<in> set (the_data_episodes hf)"
      with r p show "kept_at_close E evs (PodcastHandler MAPPING u 0) b"
        by (rule run_complete_kept)
    next
      assume "kept_at_close E evs (PodcastHandler MAPPING u 0) b"
      from run_kept_stays [OF r handler_wf_init this] d
      show "b \<in> set (the_data_episodes hf)" by simp
    qed
  qed
  show ?thesis by (rule conjI [OF c1 conjI [OF c2 conjI [OF c3 c4]]])
qed

lemma two_item_feed_run:
  "final_refs (run sample_env two_item_feed (PodcastHandler MAPPING ''http://x/feed.xml'' 1))
     = [1]
   \<and> path_stack (final_handler (run sample_env two_item_feed
        (PodcastHandler MAPPING ''http://x/feed.xml'' 1))) = []
   \<and> kept_at_close sample_env two_item_feed (PodcastHandler MAPPING ''http://x/feed.xml'' 1) 0
   \<and> kept_at_close sample_env two_item_feed (PodcastHandler MAPPING ''http://x/feed.xml'' 1) 1"
  by code_simp

lemma two_item_feed_unlimited:
  "final_refs (run sample_env two_item_feed (PodcastHandler MAPPING ''http://x/feed.xml'' 0))
     = [1, 0]
   \<and> path_stack (final_handler (run sample_env two_item_feed
        (PodcastHandler MAPPING ''http://x/feed.xml'' 0))) = []
   \<and> kept_at_close sample_env two_item_feed (PodcastHandler MAPPING ''http://x/feed.xml'' 0) 0
   \<and> kept_at_close sample_env two_item_feed (PodcastHandler MAPPING ''http://x/feed.xml'' 0) 1"
  by code_simp

text \<open>
  C1 as stated fails in the direction from the test to the final document: with
  \<open>max_episodes = 1\<close> and two items that both have an enclosure, the older episode
  passes the test at its item-close event and is not in the final document.
\<close>

theorem C1_counterexample:
  "kept_at_close sample_env two_item_feed (PodcastHandler MAPPING ''http://x/feed.xml'' 1) 0
   \<and> final_refs (run sample_env two_item_feed (PodcastHandler MAPPING ''http://x/feed.xml'' 1))
       = [1]
   \<and> 0 \<notin> set (final_refs (run sample_env two_item_feed
         (PodcastHandler MAPPING ''http://x/feed.xml'' 1)))"
  using two_item_feed_run by simp

lemma item_handler_close:
  "map_of (mapping (item_handler encs l g)) (current_path (item_handler encs l g))
     = Some EpisodeItem
   \<and> path_stack (item_handler encs l g) \<noteq> []
   \<and> episodes (item_handler encs l g) \<noteq> [] \<and> distinct (episodes (item_handler encs l g))
   \<and> enclosures (heap (item_handler encs l g) (last (episodes (item_handler encs l g))))
       = Some encs
   \<and> guid_is_permalink (heap (item_handler encs l g) (last (episodes (item_handler encs l g))))
       \<noteq> None"
  by (simp add: item_handler_def PodcastHandler_def MAPPING_def current_path_def new_entry_def)

lemma item_handler_last:
  "last (episodes (item_handler encs l g)) = 0"
  "episodes (item_handler encs l g) = [0]"
  "link (heap (item_handler encs l g) 0) = l"
  by (simp_all add: item_handler_def)

theorem C1_witness:
  "is_video_link sample_env ''http://www.youtube.com/watch?v=abc''
   \<and> \<not> is_video_link sample_env ''http://x/page''
   \<and> (\<exists>h'. endElement sample_env ''item''
               (item_handler [] ''http://www.youtube.com/watch?v=abc'' None) = Inr h'
         \<and> 0 \<in> set (episodes h') \<and> mime_type (heap h' 0) = ''video/mp4'')
   \<and> (\<exists>h'. endElement sample_env ''item'' (item_handler [] ''http://x/page'' None) = Inr h'
         \<and> episodes h' = [])
   \<and> (\<exists>hf. run sample_env two_item_feed (PodcastHandler MAPPING ''http://x/feed.xml'' 1) = Inr hf
         \<and> path_stack hf = [] \<and> the_data_episodes hf = [1]
         \<and> (\<forall>a \<in> set (the_data_episodes hf).
               kept_at_close sample_env two_item_feed
                 (PodcastHandler MAPPING ''http://x/feed.xml'' 1) a)
         \<and> kept_at_close sample_env two_item_feed
             (PodcastHandler MAPPING ''http://x/feed.xml'' 1) 0
         \<and> 0 \<in> set (episodes hf))
   \<and> (\<exists>hf. run sample_env two_item_feed (PodcastHandler MAPPING ''http://x/feed.xml'' 0) = Inr hf
         \<and> path_stack hf = [] \<and> the_data_episodes hf = [1, 0]
         \<and> parse sample_env ''http://x/feed.xml'' two_item_feed 0 = Inr (data hf)
         \<and> (\<forall>a. a \<in> set (the_data_episodes hf) \<longleftrightarrow>
                 kept_at_close sample_env two_item_feed
                   (PodcastHandler MAPPING ''http://x/feed.xml'' 0) a))"
proof -
  note c = C1_kept_iff_enclosure_or_video_link
  let ?y = "item_handler [] ''http://www.youtube.com/watch?v=abc'' None"
  let ?p = "item_handler [] ''http://x/page'' None"
  let ?r = "run sample_env two_item_feed (PodcastHandler MAPPING ''http://x/feed.xml'' 1)"
  let ?q = "run sample_env two_item_feed (PodcastHandler MAPPING ''http://x/feed.xml'' 0)"
  have v: "is_video_link sample_env ''http://www.youtube.com/watch?v=abc''"
    by (simp add: is_video_link_def sample_env_def)
  have nv: "\<not> is_video_link sample_env ''http://x/page''"
    by (simp add: is_video_link_def sample_env_def)
  note i1 = c [where h = ?y and E = sample_env and encs = "[]" and name = "''item''",
      THEN conjunct1, THEN mp, OF item_handler_close]
  have 1: "\<exists>h'. endElement sample_env ''item'' ?y = Inr h'
         \<and> 0 \<in> set (episodes h') \<and> mime_type (heap h' 0) = ''video/mp4''"
    using i1 v by (auto simp: item_handler_last)
  note i2 = c [where h = ?p and E = sample_env and encs = "[]" and name = "''item''",
      THEN conjunct1, THEN mp, OF item_handler_close]
  have 2: "\<exists>h'. endElement sample_env ''item'' ?p = Inr h' \<and> episodes h' = []"
    using i2 nv by (auto simp: item_handler_last)
  from two_item_feed_run have "final_refs ?r \<noteq> []" by simp
  then obtain hf where hf: "?r = Inr hf"
    by (cases ?r) (simp_all add: final_refs_def)
  with two_item_feed_run have ps: "path_stack hf = []" and fr: "the_data_episodes hf = [1]"
    by (simp_all add: final_handler_def final_refs_def)
  from two_item_feed_run
  have k0: "kept_at_close sample_env two_item_feed
      (PodcastHandler MAPPING ''http://x/feed.xml'' 1) 0"
    by simp
  from c [where E = sample_env and hf = hf, THEN conjunct2, THEN conjunct1, THEN mp,
      OF conjI, OF hf ps]
  have al: "\<forall>a \<in> set (the_data_episodes hf).
      kept_at_close sample_env two_item_feed (PodcastHandler MAPPING ''http://x/feed.xml'' 1) a"
    by (rule conjunct2)
  from c [where E = sample_env and hf = hf, THEN conjunct2, THEN conjunct2, THEN conjunct1,
      THEN mp, OF hf, THEN spec, THEN mp, OF k0]
  have st: "0 \<in> set (episodes hf)" .
  from hf ps fr al k0 st
  have 3: "\<exists>hf. ?r = Inr hf \<and> path_stack hf = [] \<and> the_data_episodes hf = [1]
         \<and> (\<forall>a \<in> set (the_data_episodes hf).
               kept_at_close sample_env two_item_feed
                 (PodcastHandler MAPPING ''http://x/feed.xml'' 1) a)
         \<and> kept_at_close sample_env two_item_feed
             (PodcastHandler MAPPING ''http://x/feed.xml'' 1) 0
         \<and> 0 \<in> set (episodes hf)"
    by (intro exI conjI)
  from two_item_feed_unlimited have "final_refs ?q \<noteq> []" by simp
  then obtain hg where hg: "?q = Inr hg"
    by (cases ?q) (simp_all add: final_refs_def)
  with two_item_feed_unlimited
  have pg: "path_stack hg = []" and fg: "the_data_episodes hg = [1, 0]"
    by (simp_all add: final_handler_def final_refs_def)
  note c0 = c [where E = sample_env and hf = hg, THEN conjunct2, THEN conjunct2,
      THEN conjunct2, THEN mp, OF conjI, OF hg pg]
  from c0 have pa: "parse sample_env ''http://x/feed.xml'' two_item_feed 0 = Inr (data hg)"
    by (rule conjunct1)
  from c0 have iff: "\<forall>a. a \<in> set (the_data_episodes hg) \<longleftrightarrow>
      kept_at_close sample_env two_item_feed (PodcastHandler MAPPING ''http://x/feed.xml'' 0) a"
    by (rule conjunct2)
  from hg pg fg pa iff
  have 4: "\<exists>hf. ?q = Inr hf \<and> path_stack hf = [] \<and> the_data_episodes hf = [1, 0]
         \<and> parse sample_env ''http://x/feed.xml'' two_item_feed 0 = Inr (data hf)
         \<and> (\<forall>a. a \<in> set (the_data_episodes hf) \<longleftrightarrow>
                 kept_at_close sample_env two_item_feed
                   (PodcastHandler MAPPING ''http://x/feed.xml'' 0) a)"
    by (intro exI conjI)
  show ?thesis by (intro conjI v nv 1 2 3 4)
qed

subsection \<open>Dispatch by the full path\<close>

lemma startElement_bound:
  "map_of (mapping h) (join ''/'' (path_stack h @ [name])) = Some t \<Longrightarrow>
     startElement E name at h =
       (case target_start E t at (h\<lparr>path_stack := path_stack h @ [name]\<rparr>) of
          Inl x \<Rightarrow> Inl x
        | Inr h2 \<Rightarrow> Inr (if WANT_TEXT t then h2\<lparr>text_buf := Some []\<rparr> else h2))"
  by (simp add: startElement_def Let_def)

lemma endElement_bound:
  "map_of (mapping h) (current_path h) = Some t \<Longrightarrow>
     endElement E name h =
       (case target_end E (current_path h) t (buffered_text h) h of
          Inl x \<Rightarrow> Inl x
        | Inr h2 \<Rightarrow> pop_path (h2\<lparr>text_buf := None\<rparr>))"
  by (simp add: endElement_def Let_def current_path_def buffered_text_def)

lemma lookup_titles:
  assumes "mapping_ok h"
  shows "map_of (mapping h) ''rss/channel/title'' = Some (PodcastAttr P_title F_squash_whitespace)"
    and "map_of (mapping h) ''rss/channel/item/title'' = Some (EpisodeAttr E_title F_squash_whitespace)"
    and "map_of (mapping h) ''title'' = None"
    and "map_of (mapping h) ''rss/title'' = None"
    and "map_of (mapping h) ''rss/channel/item/guid/title'' = None"
  using assms unfolding mapping_ok_def MAPPING_guid_eq
  by (auto simp add: MAPPING_def)

lemma startElement_channel_title:
  assumes "mapping_ok h" and "path_stack h = [''rss'', ''channel'']"
  shows "startElement E ''title'' at h =
           Inr (h\<lparr>path_stack := [''rss'', ''channel'', ''title''], text_buf := Some []\<rparr>)"
  using lookup_titles(1) [OF assms(1)] assms(2)
  by (simp add: startElement_def Let_def)

lemma endElement_channel_title:
  assumes "mapping_ok h" and "path_stack h = [''rss'', ''channel'', ''title'']"
  shows "endElement E name h =
           Inr (h\<lparr>data_title := squash_whitespace (buffered_text h), text_buf := None,
                  path_stack := [''rss'', ''channel'']\<rparr>)"
  using lookup_titles(1) [OF assms(1)] assms(2)
  by (simp add: endElement_def Let_def PodcastAttr_end_def apply_text_filter_def pop_path_def
      buffered_text_def)

lemma endElement_item_title:
  assumes "mapping_ok h" and "path_stack h = [''rss'', ''channel'', ''item'', ''title'']"
      and "episodes h \<noteq> []"
  shows "endElement E name h =
           Inr (h\<lparr>heap := (heap h)(last (episodes h) := (heap h (last (episodes h)))
                            \<lparr>title := Some (squash_whitespace (buffered_text h))\<rparr>),
                  text_buf := None, path_stack := [''rss'', ''channel'', ''item'']\<rparr>)"
  using lookup_titles(2) [OF assms(1)] assms(2,3)
  by (simp add: endElement_def Let_def EpisodeAttr_end_def set_episode_attr_def update_last_def
      apply_text_filter_def pop_path_def buffered_text_def)

lemma endElement_other_title:
  assumes "mapping_ok h"
      and "path_stack h = [''title''] \<or> path_stack h = [''rss'', ''title'']
           \<or> path_stack h = [''rss'', ''channel'', ''item'', ''guid'', ''title'']"
  shows "endElement E name h = Inr (h\<lparr>path_stack := butlast (path_stack h)\<rparr>)"
  using lookup_titles(3-5) [OF assms(1)] assms(2)
  by (auto simp add: endElement_def Let_def pop_path_def)

text \<open>
  C8.  The handler is looked up under the slash-joined path of the whole stack, never
  under the tag name.  When the path is bound, \<open>startElement\<close> calls the \<open>start\<close> hook of
  the target found there and \<open>endElement\<close> its \<open>end\<close> hook; so the exit of a \<open>title\<close>
  under \<open>channel\<close> sets the title of the document and leaves the episodes alone, the
  exit of a \<open>title\<close> under \<open>item\<close> sets the title of the current episode and leaves the
  document's title alone, and the exit of a \<open>title\<close> anywhere else sets nothing.  An
  enter event whose path is unbound only pushes the tag name, an exit event whose path is
  unbound only pops it, and neither raises: document, episodes, store, text buffer, base
  and table are the same before and after.
\<close>

theorem C8_exact_path_dispatch:
  "(map_of (mapping h) (join ''/'' (path_stack h @ [name])) = None \<longrightarrow>
        startElement E name at h = Inr (h\<lparr>path_stack := path_stack h @ [name]\<rparr>))
   \<and> (map_of (mapping h) (current_path h) = None \<and> path_stack h \<noteq> [] \<longrightarrow>
        endElement E name h = Inr (h\<lparr>path_stack := butlast (path_stack h)\<rparr>))
   \<and> (map_of (mapping h) (join ''/'' (path_stack h @ [name])) = Some t \<longrightarrow>
        startElement E name at h =
          (case target_start E t at (h\<lparr>path_stack := path_stack h @ [name]\<rparr>) of
             Inl x \<Rightarrow> Inl x
           | Inr h2 \<Rightarrow> Inr (if WANT_TEXT t then h2\<lparr>text_buf := Some []\<rparr> else h2)))
   \<and> (map_of (mapping h) (current_path h) = Some t \<longrightarrow>
        endElement E name h =
          (case target_end E (current_path h) t (buffered_text h) h of
             Inl x \<Rightarrow> Inl x
           | Inr h2 \<Rightarrow> pop_path (h2\<lparr>text_buf := None\<rparr>)))
   \<and> (mapping_ok h \<and> path_stack h = [''rss'', ''channel''] \<longrightarrow>
        startElement E ''title'' at h =
          Inr (h\<lparr>path_stack := [''rss'', ''channel'', ''title''], text_buf := Some []\<rparr>))
   \<and> (mapping_ok h \<and> path_stack h = [''rss'', ''channel'', ''title''] \<longrightarrow>
        endElement E name h =
          Inr (h\<lparr>data_title := squash_whitespace (buffered_text h), text_buf := None,
                 path_stack := [''rss'', ''channel'']\<rparr>))
   \<and> (mapping_ok h \<and> path_stack h = [''rss'', ''channel'', ''item'', ''title'']
        \<and> episodes h \<noteq> [] \<longrightarrow>
        endElement E name h =
          Inr (h\<lparr>heap := (heap h)(last (episodes h) := (heap h (last (episodes h)))
                           \<lparr>title := Some (squash_whitespace (buffered_text h))\<rparr>),
                 text_buf := None, path_stack := [''rss'', ''channel'', ''item'']\<rparr>))
   \<and> (mapping_ok h
        \<and> (path_stack h = [''title''] \<or> path_stack h = [''rss'', ''title'']
            \<or> path_stack h = [''rss'', ''channel'', ''item'', ''guid'', ''title'']) \<longrightarrow>
        endElement E name h = Inr (h\<lparr>path_stack := butlast (path_stack h)\<rparr>))
   \<and> map_of MAPPING ''rss/channel/title'' = Some (PodcastAttr P_title F_squash_whitespace)
   \<and> map_of MAPPING ''rss/channel/item/title'' = Some (EpisodeAttr E_title F_squash_whitespace)
   \<and> map_of MAPPING ''title'' = None"
proof (intro conjI impI)
  show "map_of MAPPING ''rss/channel/title'' = Some (PodcastAttr P_title F_squash_whitespace)"
    "map_of MAPPING ''rss/channel/item/title'' = Some (EpisodeAttr E_title F_squash_whitespace)"
    "map_of MAPPING ''title'' = None"
    by (simp_all add: MAPPING_def)
qed (simp_all add: startElement_unbound endElement_unbound startElement_bound endElement_bound
      startElement_channel_title endElement_channel_title endElement_item_title
      endElement_other_title)

lemma title_handler_facts:
  "mapping_ok (title_handler ps s)" "path_stack (title_handler ps s) = ps"
  "episodes (title_handler ps s) \<noteq> []" "last (episodes (title_handler ps s)) = 0"
  "buffered_text (title_handler ps s) = s" "data_title (title_handler ps s) = []"
  "title (heap (title_handler ps s) 0) = None"
  by (simp_all add: title_handler_def item_handler_def PodcastHandler_def mapping_ok_def
      buffered_text_def new_entry_def)

lemma sample_squash: "squash_whitespace '' My   Feed '' = ''My Feed''"
  "squash_whitespace ''Ep 1'' = ''Ep 1''"
  by (simp_all add: squash_whitespace_def strip_def is_space_def)

theorem C8_witness:
  "mapping_ok (title_handler [''rss'', ''channel'', ''title''] '' My   Feed '')
   \<and> (\<exists>h'. endElement sample_env ''title''
               (title_handler [''rss'', ''channel'', ''title''] '' My   Feed '') = Inr h'
          \<and> data_title h' = ''My Feed'' \<and> title (heap h' 0) = None
          \<and> path_stack h' = [''rss'', ''channel''])
   \<and> (\<exists>h'. endElement sample_env ''title''
               (title_handler [''rss'', ''channel'', ''item'', ''title''] ''Ep 1'') = Inr h'
          \<and> data_title h' = [] \<and> title (heap h' 0) = Some ''Ep 1''
          \<and> path_stack h' = [''rss'', ''channel'', ''item''])
   \<and> (\<exists>h'. endElement sample_env ''title'' (title_handler [''rss'', ''title''] ''x'') = Inr h'
          \<and> data_title h' = [] \<and> title (heap h' 0) = None \<and> path_stack h' = [''rss''])
   \<and> (\<exists>h'. startElement sample_env ''title'' [] (title_handler [''rss'', ''channel''] ''x'')
               = Inr h'
          \<and> text_buf h' = Some [] \<and> path_stack h' = [''rss'', ''channel'', ''title''])
   \<and> map_of (mapping (title_handler [''rss''] ''x''))
         (join ''/'' (path_stack (title_handler [''rss''] ''x'') @ [''title''])) = None
   \<and> (\<exists>h'. startElement sample_env ''title'' [] (title_handler [''rss''] ''x'') = Inr h'
          \<and> text_buf h' = Some [''x''] \<and> path_stack h' = [''rss'', ''title''])
   \<and> map_of (mapping (title_handler [''rss'', ''title''] ''x''))
        (current_path (title_handler [''rss'', ''title''] ''x'')) = None
   \<and> path_stack (title_handler [''rss'', ''title''] ''x'') \<noteq> []
   \<and> endElement sample_env ''title'' (title_handler [''rss'', ''title''] ''x'')
        = Inr ((title_handler [''rss'', ''title''] ''x'')\<lparr>path_stack := [''rss'']\<rparr>)
   \<and> map_of (mapping (title_handler [''rss'', ''channel''] ''x''))
        (join ''/'' (path_stack (title_handler [''rss'', ''channel''] ''x'') @ [''title'']))
        = Some (PodcastAttr P_title F_squash_whitespace)
   \<and> (\<exists>h'. startElement sample_env ''title'' [] (title_handler [''rss'', ''channel''] ''x'')
               = Inr h'
          \<and> WANT_TEXT (PodcastAttr P_title F_squash_whitespace) \<and> text_buf h' = Some [])
   \<and> map_of (mapping (title_handler [''rss'', ''channel'', ''title''] '' My   Feed ''))
        (current_path (title_handler [''rss'', ''channel'', ''title''] '' My   Feed ''))
        = Some (PodcastAttr P_title F_squash_whitespace)
   \<and> (\<exists>h'. endElement sample_env ''title''
               (title_handler [''rss'', ''channel'', ''title''] '' My   Feed '') = Inr h'
          \<and> data_title h' = ''My Feed'' \<and> text_buf h' = None)"
proof -
  note c = C8_exact_path_dispatch
  let ?c = "title_handler [''rss'', ''channel'', ''title''] '' My   Feed ''"
  let ?i = "title_handler [''rss'', ''channel'', ''item'', ''title''] ''Ep 1''"
  let ?o = "title_handler [''rss'', ''title''] ''x''"
  let ?s = "title_handler [''rss'', ''channel''] ''x''"
  let ?u = "title_handler [''rss''] ''x''"
  have pc: "mapping_ok ?c \<and> path_stack ?c = [''rss'', ''channel'', ''title'']"
    by (simp add: title_handler_facts)
  have pi: "mapping_ok ?i \<and> path_stack ?i = [''rss'', ''channel'', ''item'', ''title'']
      \<and> episodes ?i \<noteq> []"
    by (simp add: title_handler_facts)
  have po: "mapping_ok ?o
      \<and> (path_stack ?o = [''title''] \<or> path_stack ?o = [''rss'', ''title'']
          \<or> path_stack ?o = [''rss'', ''channel'', ''item'', ''guid'', ''title''])"
    by (simp add: title_handler_facts)
  have ps: "mapping_ok ?s \<and> path_stack ?s = [''rss'', ''channel'']"
    by (simp add: title_handler_facts)
  have pu: "map_of (mapping ?u) (join ''/'' (path_stack ?u @ [''title''])) = None"
    by (simp add: title_handler_def item_handler_def PodcastHandler_def MAPPING_def)
  note ec = c [where h = ?c and E = sample_env and name = "''title''", THEN conjunct2,
      THEN conjunct2, THEN conjunct2, THEN conjunct2, THEN conjunct2, THEN conjunct1,
      THEN mp, OF pc]
  note ei = c [where h = ?i and E = sample_env and name = "''title''", THEN conjunct2,
      THEN conjunct2, THEN conjunct2, THEN conjunct2, THEN conjunct2, THEN conjunct2,
      THEN conjunct1, THEN mp, OF pi]
  note eo = c [where h = ?o and E = sample_env and name = "''title''", THEN conjunct2,
      THEN conjunct2, THEN conjunct2, THEN conjunct2, THEN conjunct2, THEN conjunct2,
      THEN conjunct2, THEN conjunct1, THEN mp, OF po]
  note es = c [where h = ?s and E = sample_env and at = "[]", THEN conjunct2,
      THEN conjunct2, THEN conjunct2, THEN conjunct2, THEN conjunct1, THEN mp, OF ps]
  note eu = c [where h = ?u and E = sample_env and name = "''title''" and at = "[]",
      THEN conjunct1, THEN mp, OF pu]
  have 1: "\<exists>h'. endElement sample_env ''title'' ?c = Inr h'
          \<and> data_title h' = ''My Feed'' \<and> title (heap h' 0) = None
          \<and> path_stack h' = [''rss'', ''channel'']"
    unfolding ec by (simp add: title_handler_facts sample_squash)
  have 2: "\<exists>h'. endElement sample_env ''title'' ?i = Inr h'
          \<and> data_title h' = [] \<and> title (heap h' 0) = Some ''Ep 1''
          \<and> path_stack h' = [''rss'', ''channel'', ''item'']"
    unfolding ei by (simp add: title_handler_facts sample_squash)
  have 3: "\<exists>h'. endElement sample_env ''title'' ?o = Inr h'
          \<and> data_title h' = [] \<and> title (heap h' 0) = None \<and> path_stack h' = [''rss'']"
    unfolding eo by (simp add: title_handler_facts)
  have 4: "\<exists>h'. startElement sample_env ''title'' [] ?s = Inr h'
          \<and> text_buf h' = Some [] \<and> path_stack h' = [''rss'', ''channel'', ''title'']"
    unfolding es by simp
  have 5: "\<exists>h'. startElement sample_env ''title'' [] ?u = Inr h'
          \<and> text_buf h' = Some [''x''] \<and> path_stack h' = [''rss'', ''title'']"
    unfolding eu by (simp add: title_handler_def)
  have qo: "map_of (mapping ?o) (current_path ?o) = None \<and> path_stack ?o \<noteq> []"
    by (simp add: title_handler_def item_handler_def PodcastHandler_def MAPPING_def
        current_path_def)
  note uo = c [where h = ?o and E = sample_env and name = "''title''", THEN conjunct2,
      THEN conjunct1, THEN mp, OF qo]
  have 6: "endElement sample_env ''title'' ?o = Inr (?o\<lparr>path_stack := [''rss'']\<rparr>)"
    unfolding uo by (simp add: title_handler_facts)
  have qs: "map_of (mapping ?s) (join ''/'' (path_stack ?s @ [''title'']))
      = Some (PodcastAttr P_title F_squash_whitespace)"
    by (simp add: title_handler_def item_handler_def PodcastHandler_def MAPPING_def)
  note bs = c [where h = ?s and E = sample_env and name = "''title''" and at = "[]"
      and t = "PodcastAttr P_title F_squash_whitespace", THEN conjunct2, THEN conjunct2,
      THEN conjunct1, THEN mp, OF qs]
  have 7: "\<exists>h'. startElement sample_env ''title'' [] ?s = Inr h'
          \<and> WANT_TEXT (PodcastAttr P_title F_squash_whitespace) \<and> text_buf h' = Some []"
    unfolding bs by simp
  have qc: "map_of (mapping ?c) (current_path ?c)
      = Some (PodcastAttr P_title F_squash_whitespace)"
    by (simp add: title_handler_def item_handler_def PodcastHandler_def MAPPING_def
        current_path_def)
  note bc = c [where h = ?c and E = sample_env and name = "''title''"
      and t = "PodcastAttr P_title F_squash_whitespace", THEN conjunct2, THEN conjunct2,
      THEN conjunct2, THEN conjunct1, THEN mp, OF qc]
  have 8: "\<exists>h'. endElement sample_env ''title'' ?c = Inr h'
          \<and> data_title h' = ''My Feed'' \<and> text_buf h' = None"
    unfolding bc
    by (simp add: PodcastAttr_end_def apply_text_filter_def pop_path_def title_handler_facts
        sample_squash set_podcast_attr_proj)
  show ?thesis
    by (intro conjI pc [THEN conjunct1] 1 2 3 4 pu 5 qo [THEN conjunct1] qo [THEN conjunct2]
        6 qs 7 qc 8)
qed

subsection \<open>Sizes come from enclosures\<close>

lemma parse_length_cases:
  "parse_length E t = - 1
   \<or> (\<exists>s. t = Some s \<and> parse_length E t \<noteq> 0 \<and> long E (strip s) = Some (parse_length E t))"
  by (auto simp: parse_length_def split: option.splits)

lemma heap_inv_target_start_enc:
  assumes "target_start E t at h = Inr h'" and "heap_inv P h" and "base_inv P"
      and "t = Enclosure \<Longrightarrow> map_of at ''url'' \<noteq> None \<Longrightarrow>
             P (parse_length E (map_of at ''length'')) (parse_type (map_of at ''type''))"
  shows "heap_inv P h'"
proof (cases t)
  case EpisodeItem
  with assms show ?thesis
    by (auto simp: EpisodeItem_start_def heap_inv_def cell_inv_new_entry)
next
  case Enclosure
  show ?thesis
  proof (cases "map_of at ''url''")
    case None
    with Enclosure assms(1,2) show ?thesis by (simp add: Enclosure_start_def)
  next
    case (Some u)
    with Enclosure assms(1) have "add_enclosure (parse_url E (urljoin E (h_url h) u))
        (parse_length E (map_of at ''length'')) (parse_type (map_of at ''type'')) h = Inr h'"
      by (simp add: Enclosure_start_def)
    moreover from assms(4) Enclosure Some
    have "P (parse_length E (map_of at ''length'')) (parse_type (map_of at ''type''))" by simp
    ultimately show ?thesis using assms(2) by (blast intro: heap_inv_add_enclosure)
  qed
next
  case (EpisodeGuid k f)
  with assms show ?thesis
    by (auto simp: EpisodeGuid_start_def set_guid_is_permalink_def split: if_splits
        intro: heap_inv_update_last cell_inv_permalink)
next
  case (EpisodeAttrFromHref k f)
  with assms show ?thesis
    by (auto simp: EpisodeAttrFromHref_start_def set_episode_attr_def
        split: if_splits option.splits intro: heap_inv_update_last cell_inv_store_text)
next
  case (EpisodeAttrFromPaymentHref k f)
  with assms show ?thesis
    by (auto simp: EpisodeAttrFromPaymentHref_start_def EpisodeAttrFromHref_start_def
        set_episode_attr_def
        split: if_splits option.splits intro: heap_inv_update_last cell_inv_store_text)
qed (use assms(1,2) in \<open>auto simp: RSS_start_def set_base_def PodcastAttrFromHref_start_def
        PodcastAttrFromPaymentHref_start_def heap_inv_def set_podcast_attr_proj
        split: option.splits if_splits\<close>)

lemma heap_inv_step_enc:
  assumes "step E ev h = Inr h'" and "heap_inv P h" and "base_inv P"
      and "\<And>name at. ev = StartElement name at \<Longrightarrow>
             map_of (mapping h) (join ''/'' (path_stack h @ [name])) = Some Enclosure \<Longrightarrow>
             map_of at ''url'' \<noteq> None \<Longrightarrow>
             P (parse_length E (map_of at ''length'')) (parse_type (map_of at ''type''))"
  shows "heap_inv P h'"
proof (cases ev)
  case (StartElement name at)
  show ?thesis
  proof (cases "map_of (mapping h) (join ''/'' (path_stack h @ [name]))")
    case None
    with assms(1,2) StartElement show ?thesis
      by (auto simp: startElement_def Let_def heap_inv_def)
  next
    case (Some t)
    with assms(1) StartElement obtain h2 where
      h2: "target_start E t at (h\<lparr>path_stack := path_stack h @ [name]\<rparr>) = Inr h2"
      and h': "h' = (if WANT_TEXT t then h2\<lparr>text_buf := Some []\<rparr> else h2)"
      by (auto simp: startElement_def Let_def split: sum.splits)
    from assms(2) have i: "heap_inv P (h\<lparr>path_stack := path_stack h @ [name]\<rparr>)"
      by (simp add: heap_inv_def)
    have "heap_inv P h2"
    proof (rule heap_inv_target_start_enc [OF h2 i assms(3)])
      assume "t = Enclosure" and "map_of at ''url'' \<noteq> None"
      with assms(4) [OF StartElement] Some
      show "P (parse_length E (map_of at ''length'')) (parse_type (map_of at ''type''))"
        by simp
    qed
    with h' show ?thesis by (simp add: heap_inv_def)
  qed
next
  case (Characters c)
  with assms(1-3) show ?thesis
    by (intro heap_inv_step [OF assms(1,2,3)]) (simp add: attrs_inv_def)
next
  case (EndElement name)
  with assms(1-3) show ?thesis
    by (intro heap_inv_step [OF assms(1,2,3)]) (simp add: attrs_inv_def)
qed

lemma size_inv_run:
  "run E evs h = Inr h' \<Longrightarrow> heap_inv (\<lambda>n m. Q n) h \<Longrightarrow> Q (- 1) \<Longrightarrow>
     (\<And>n. n \<noteq> 0 \<Longrightarrow> enclosure_declared E evs h n \<Longrightarrow> Q n) \<Longrightarrow>
     heap_inv (\<lambda>n m. Q n) h'"
proof (induction evs arbitrary: h)
  case Nil
  then show ?case by simp
next
  case (Cons ev evs)
  from Cons.prems(1) obtain h1 where s: "step E ev h = Inr h1" and r: "run E evs h1 = Inr h'"
    by (auto split: sum.splits)
  have b: "base_inv (\<lambda>n m. Q n)"
    using Cons.prems(3) by (simp add: base_inv_def)
  have "heap_inv (\<lambda>n m. Q n) h1"
  proof (rule heap_inv_step_enc [OF s Cons.prems(2) b])
    fix name at
    assume ev: "ev = StartElement name at"
      and t: "map_of (mapping h) (join ''/'' (path_stack h @ [name])) = Some Enclosure"
      and u: "map_of at ''url'' \<noteq> None"
    from parse_length_cases [of E "map_of at ''length''"]
    show "Q (parse_length E (map_of at ''length''))"
    proof
      assume "parse_length E (map_of at ''length'') = - 1"
      with Cons.prems(3) show ?thesis by simp
    next
      assume "\<exists>s. map_of at ''length'' = Some s \<and> parse_length E (map_of at ''length'') \<noteq> 0
          \<and> long E (strip s) = Some (parse_length E (map_of at ''length''))"
      then obtain s where l: "map_of at ''length'' = Some s"
        and nz: "parse_length E (map_of at ''length'') \<noteq> 0"
        and lg: "long E (strip s) = Some (parse_length E (map_of at ''length''))"
        by blast
      from ev t u l lg
      have "enclosure_length E ev h = Some (parse_length E (map_of at ''length''))"
        by (simp add: enclosure_length_def)
      then have "enclosure_declared E (ev # evs) h (parse_length E (map_of at ''length''))"
        by simp
      with nz show ?thesis by (rule Cons.prems(4))
    qed
  qed
  moreover have "\<And>n. n \<noteq> 0 \<Longrightarrow> enclosure_declared E evs h1 n \<Longrightarrow> Q n"
    using Cons.prems(4) s by simp
  ultimately show ?case using Cons.IH [OF r] Cons.prems(3) by blast
qed

lemma parse_file_sizes:
  assumes "parse E u evs n = Inr d"
  shows "list_all (\<lambda>e. file_size e = - 1
            \<or> (file_size e \<noteq> 0
                \<and> enclosure_declared E evs (PodcastHandler MAPPING u n) (file_size e)))
          (doc_episodes d)"
proof -
  let ?Q = "\<lambda>k. k = - 1 \<or> (k \<noteq> 0 \<and> enclosure_declared E evs (PodcastHandler MAPPING u n) k)"
  from assms obtain h where r: "run E evs (PodcastHandler MAPPING u n) = Inr h"
    and d: "d = data h"
    by (auto simp: parse_def split: sum.splits)
  have i: "heap_inv (\<lambda>n m. ?Q n) (PodcastHandler MAPPING u n)"
    by (rule heap_inv_init) (simp add: base_inv_def)
  have "heap_inv (\<lambda>n m. ?Q n) h"
    by (rule size_inv_run [OF r i]) simp_all
  then show ?thesis
    unfolding d by (simp add: data_def heap_inv_def cell_inv_def list_all_iff)
qed

text \<open>
  C3, as the code has it.  \<open>parse_length\<close> returns \<open>-1\<close> when the attribute is absent,
  when \<^verbatim>\<open>long\<close> rejects the trimmed text and when it reads zero, and otherwise the
  integer read, whatever its sign.  The \<open>file_size\<close> of every episode of the document
  that \<open>parse\<close> returns is \<open>-1\<close> or a non-zero integer read from the declared \<open>length\<close>
  attribute of an enclosure element of the feed.
\<close>

theorem C3_file_size_minus_one_or_nonzero:
  "parse_length E None = - 1
   \<and> (long E (strip s) = None \<longrightarrow> parse_length E (Some s) = - 1)
   \<and> (long E (strip s) = Some 0 \<longrightarrow> parse_length E (Some s) = - 1)
   \<and> (long E (strip s) = Some k \<and> k \<noteq> 0 \<longrightarrow> parse_length E (Some s) = k)
   \<and> (parse E u evs n = Inr d \<longrightarrow>
        list_all (\<lambda>e. file_size e = - 1
                    \<or> (file_size e \<noteq> 0
                        \<and> enclosure_declared E evs (PodcastHandler MAPPING u n) (file_size e)))
          (doc_episodes d))"
proof (intro conjI impI)
  assume "parse E u evs n = Inr d"
  then show "list_all (\<lambda>e. file_size e = - 1
                    \<or> (file_size e \<noteq> 0
                        \<and> enclosure_declared E evs (PodcastHandler MAPPING u n) (file_size e)))
          (doc_episodes d)"
    by (rule parse_file_sizes)
qed (auto simp: parse_length_def)

lemma sample_long_neg: "long sample_env (strip ''-5'') = Some (- 5)"
  by (simp add: sample_env_def strip_def is_space_def long_decimal_def digit_val_def)

lemma sample_long_zero: "long sample_env (strip ''0'') = Some 0"
  by (simp add: sample_env_def strip_def is_space_def long_decimal_def digit_val_def)

lemma sample_long_abc: "long sample_env (strip ''abc'') = None"
  by (simp add: sample_env_def strip_def is_space_def long_decimal_def digit_val_def)

lemma guid_length_feed_run:
  "map file_size (episodes_of (parse sample_env ''http://x/feed.xml'' guid_length_feed 0))
     = [- 5]
   \<and> enclosure_declared sample_env guid_length_feed
        (PodcastHandler MAPPING ''http://x/feed.xml'' 0) (- 5)
   \<and> \<not> enclosure_declared sample_env guid_length_feed
        (PodcastHandler MAPPING ''http://x/feed.xml'' 0) 7"
  by code_simp

theorem C3_witness:
  "long sample_env (strip ''abc'') = None \<and> parse_length sample_env (Some ''abc'') = - 1
   \<and> long sample_env (strip ''0'') = Some 0 \<and> parse_length sample_env (Some ''0'') = - 1
   \<and> long sample_env (strip ''-5'') = Some (- 5) \<and> (- 5 :: int) \<noteq> 0
   \<and> parse_length sample_env (Some ''-5'') = - 5
   \<and> \<not> enclosure_declared sample_env guid_length_feed
        (PodcastHandler MAPPING ''http://x/feed.xml'' 0) 7
   \<and> (\<exists>d. parse sample_env ''http://x/feed.xml'' guid_length_feed 0 = Inr d
          \<and> map file_size (doc_episodes d) = [- 5]
          \<and> list_all (\<lambda>e. file_size e = - 1 \<or> (file_size e \<noteq> 0
               \<and> enclosure_declared sample_env guid_length_feed
                    (PodcastHandler MAPPING ''http://x/feed.xml'' 0) (file_size e)))
               (doc_episodes d))"
proof -
  let ?p = "parse sample_env ''http://x/feed.xml'' guid_length_feed 0"
  note c = C3_file_size_minus_one_or_nonzero
  have 1: "parse_length sample_env (Some ''abc'') = - 1"
    by (rule c [where E = sample_env and s = "''abc''", THEN conjunct2, THEN conjunct1, THEN mp])
       (rule sample_long_abc)
  have 2: "parse_length sample_env (Some ''0'') = - 1"
    by (rule c [where E = sample_env and s = "''0''", THEN conjunct2, THEN conjunct2,
          THEN conjunct1, THEN mp]) (rule sample_long_zero)
  have 3: "parse_length sample_env (Some ''-5'') = - 5"
    by (rule c [where E = sample_env and s = "''-5''" and k = "- 5", THEN conjunct2,
          THEN conjunct2, THEN conjunct2, THEN conjunct1, THEN mp])
       (simp add: sample_long_neg)
  from guid_length_feed_run have "map file_size (episodes_of ?p) = [- 5]" by (rule conjunct1)
  then obtain d where d: "?p = Inr d" and m: "map file_size (doc_episodes d) = [- 5]"
    by (cases ?p) (simp_all add: episodes_of_def)
  note 5 = c [where E = sample_env and d = d, THEN conjunct2, THEN conjunct2, THEN conjunct2,
          THEN conjunct2, THEN mp, OF d]
  from d m 5 have 4: "\<exists>d. ?p = Inr d \<and> map file_size (doc_episodes d) = [- 5]
          \<and> list_all (\<lambda>e. file_size e = - 1 \<or> (file_size e \<noteq> 0
               \<and> enclosure_declared sample_env guid_length_feed
                    (PodcastHandler MAPPING ''http://x/feed.xml'' 0) (file_size e)))
               (doc_episodes d)"
    by (intro exI conjI)
  have 6: "(- 5 :: int) \<noteq> 0" by simp
  have 7: "\<not> enclosure_declared sample_env guid_length_feed
        (PodcastHandler MAPPING ''http://x/feed.xml'' 0) 7"
    using guid_length_feed_run by (rule conjunct2 [THEN conjunct2])
  show ?thesis
    by (intro conjI sample_long_abc 1 sample_long_zero 2 sample_long_neg 6 3 7 4)
qed

text \<open>
  C3 as stated fails: \<^verbatim>\<open>length="-5"\<close> parses to \<open>-5\<close>, which becomes the \<open>file_size\<close>
  of the episode and is neither \<open>-1\<close> nor positive.
\<close>

theorem C3_counterexample:
  "parse_length sample_env (Some ''-5'') = - 5
   \<and> map file_size (episodes_of (parse sample_env ''http://x/feed.xml''
        (one_item_feed neg_attrs ''http://x/page'') 0)) = [- 5]
   \<and> \<not> ((- 5 :: int) = - 1 \<or> 0 < (- 5 :: int))"
proof -
  have "parse_length sample_env (Some ''-5'') = - 5"
    by (simp add: parse_length_def sample_long_neg)
  moreover have "map file_size (episodes_of (parse sample_env ''http://x/feed.xml''
        (one_item_feed neg_attrs ''http://x/page'') 0)) = [- 5]"
    by code_simp
  ultimately show ?thesis by simp
qed

subsection \<open>A negative limit over a whole parse\<close>

lemma filter_closed_snoc:
  assumes "xs \<noteq> []" and "\<not> P (last xs)"
  shows "filter P xs = filter P (butlast xs)"
proof -
  from assms(1) have "xs = butlast xs @ [last xs]" by simp
  then have "filter P xs = filter P (butlast xs @ [last xs])" by simp
  also have "\<dots> = filter P (butlast xs)" using assms(2) by simp
  finally show ?thesis .
qed

lemma step_closed_list:
  assumes "step E ev h = Inr h'" and "handler_wf h" and "\<not> is_channel_close ev h"
  shows "filter (closed h') (episodes h') =
           filter (closed h) (episodes h)
           @ (if is_item_close ev h \<and> close_keeps E h then [last (episodes h)] else [])"
proof (cases ev)
  case (StartElement name at)
  then have ni: "\<not> is_item_close ev h" by (simp add: is_item_close_def)
  let ?h1 = "h\<lparr>path_stack := path_stack h @ [name]\<rparr>"
  show ?thesis
  proof (cases "map_of (mapping h) (join ''/'' (path_stack h @ [name]))")
    case None
    with assms(1) StartElement have "h' = ?h1" by (simp add: startElement_def Let_def)
    then have "episodes h' = episodes h" "closed h' = closed h"
      by (simp_all add: closed_def fun_eq_iff)
    with ni show ?thesis by simp
  next
    case (Some t)
    with assms(1) StartElement obtain h2 where
      h2: "target_start E t at ?h1 = Inr h2"
      and h': "h' = (if WANT_TEXT t then h2\<lparr>text_buf := Some []\<rparr> else h2)"
      by (auto simp: startElement_def Let_def split: sum.splits)
    from h' have e: "episodes h' = episodes h2" "closed h' = closed h2"
      by (simp_all add: closed_def fun_eq_iff)
    from target_start_effect [OF h2]
    have "filter (closed h2) (episodes h2) = filter (closed h) (episodes h)"
    proof
      assume s: "t = EpisodeItem \<and> h2 = EpisodeItem_start ?h1"
      then have ep: "episodes h2 = episodes h @ [next_ref h]"
        and nw: "\<not> closed h2 (next_ref h)"
        and old: "\<And>b. b \<noteq> next_ref h \<Longrightarrow> closed h2 b = closed h b"
        by (simp_all add: EpisodeItem_start_def closed_def new_entry_def)
      from assms(2) have "\<And>b. b \<in> set (episodes h) \<Longrightarrow> b \<noteq> next_ref h"
        by (auto simp: handler_wf_def refs_def)
      with old have "filter (closed h2) (episodes h) = filter (closed h) (episodes h)"
        by (intro filter_cong) simp_all
      with ep nw show ?thesis by simp
    next
      assume ss: "t \<noteq> EpisodeItem \<and> same_shape ?h1 h2"
      then have "episodes h2 = episodes h" "closed h2 = closed h"
        by (simp_all add: same_shape_def closed_def fun_eq_iff)
      then show ?thesis by simp
    qed
    with e ni show ?thesis by simp
  qed
next
  case (Characters c)
  then have ni: "\<not> is_item_close ev h" by (simp add: is_item_close_def)
  from Characters assms(1) have "episodes h' = episodes h" "closed h' = closed h"
    by (auto simp: characters_def closed_def fun_eq_iff split: option.splits)
  with ni show ?thesis by simp
next
  case (EndElement name)
  show ?thesis
  proof (cases "map_of (mapping h) (join ''/'' (path_stack h))")
    case None
    with EndElement have ni: "\<not> is_item_close ev h"
      by (simp add: is_item_close_def current_path_def)
    from None assms(1) EndElement have "episodes h' = episodes h" "closed h' = closed h"
      by (auto simp: endElement_def pop_path_def Let_def closed_def fun_eq_iff
          split: if_splits)
    with ni show ?thesis by simp
  next
    case (Some t)
    with assms(1) EndElement obtain h2 where
      h2: "target_end E (join ''/'' (path_stack h)) t (buffered_text h) h = Inr h2"
      and pp: "pop_path (h2\<lparr>text_buf := None\<rparr>) = Inr h'"
      by (auto simp: endElement_def Let_def buffered_text_def split: sum.splits)
    from pp have e: "episodes h' = episodes h2" "closed h' = closed h2"
      by (auto simp: pop_path_def closed_def fun_eq_iff split: if_splits)
    from Some assms(3) EndElement have nt: "t \<noteq> PodcastItem"
      by (auto simp: is_channel_close_def current_path_def)
    from Some EndElement have ic: "is_item_close ev h \<longleftrightarrow> t = EpisodeItem"
      by (simp add: is_item_close_def current_path_def)
    from target_end_effect [OF h2] nt
    consider (item) "t = EpisodeItem" "EpisodeItem_end E h = Inr h2"
      | (other) "t \<noteq> EpisodeItem" "same_shape h h2"
      by blast
    then have "filter (closed h2) (episodes h2) =
           filter (closed h) (episodes h)
           @ (if is_item_close ev h \<and> close_keeps E h then [last (episodes h)] else [])"
    proof cases
      case item
      let ?a = "last (episodes h)"
      from item(2) have ne: "episodes h \<noteq> []"
        by (auto simp: EpisodeItem_end_def split: if_splits)
      from item(2) have nc: "\<not> closed h ?a"
        by (auto simp: EpisodeItem_end_def Let_def closed_def split: if_splits option.splits)
      from assms(2) have d: "distinct (episodes h)" by (simp add: handler_wf_def)
      from filter_closed_snoc [where P = "closed h", OF ne nc]
      have fb: "filter (closed h) (episodes h) = filter (closed h) (butlast (episodes h))" .
      from item(2) consider
          (drop) "episodes h2 = butlast (episodes h)" "heap h2 = heap h" "\<not> close_keeps E h"
        | (keep) "episodes h2 = episodes h" "close_keeps E h" "closed h2 ?a"
            "\<And>b. b \<noteq> ?a \<Longrightarrow> heap h2 b = heap h b"
        by (auto simp: EpisodeItem_end_def Let_def close_keeps_def closed_def
            dest: finish_entry_fields
            split: if_splits option.splits sum.splits)
      then show ?thesis
      proof cases
        case drop
        from drop(2) have "closed h2 = closed h" by (simp add: closed_def fun_eq_iff)
        with drop(1,3) fb show ?thesis by simp
      next
        case keep
        from last_notin_butlast [OF d ne]
        have "\<And>b. b \<in> set (butlast (episodes h)) \<Longrightarrow> b \<noteq> ?a" by auto
        with keep(4) have "\<And>b. b \<in> set (butlast (episodes h)) \<Longrightarrow> closed h2 b = closed h b"
          by (simp add: closed_def)
        then have fc: "filter (closed h2) (butlast (episodes h))
            = filter (closed h) (butlast (episodes h))"
          by (intro filter_cong) simp_all
        from ne have "episodes h = butlast (episodes h) @ [?a]" by simp
        then have "filter (closed h2) (episodes h)
            = filter (closed h2) (butlast (episodes h) @ [?a])" by simp
        also have "\<dots> = filter (closed h2) (butlast (episodes h)) @ [?a]"
          using keep(3) by simp
        finally have "filter (closed h2) (episodes h)
            = filter (closed h) (episodes h) @ [?a]"
          unfolding fc fb [symmetric] .
        with keep(1,2) ic item(1) show ?thesis by simp
      qed
    next
      case other
      then have "episodes h2 = episodes h" "closed h2 = closed h"
        by (simp_all add: same_shape_def fun_eq_iff)
      with other(1) ic show ?thesis by simp
    qed
    with e show ?thesis by simp
  qed
qed

lemma channel_close_all_closed:
  assumes "handler_wf h" and "is_channel_close ev h"
  shows "filter (closed h) (episodes h) = episodes h"
proof -
  from assms(1) have m: "mapping_ok h" by (simp add: handler_wf_def)
  from assms(2) have "map_of (mapping h) (current_path h) = Some PodcastItem"
    by (simp add: is_channel_close_def)
  with mapping_ok_mem [OF m] mem_PodcastItem have "join ''/'' (path_stack h) = channel_path"
    unfolding current_path_def by blast
  then have "\<not> item_open (path_stack h)" by (rule not_item_open_channel)
  with assms(1) have "\<forall>a \<in> set (episodes h). closed h a"
    unfolding handler_wf_def by blast
  then show ?thesis by simp
qed

lemma run_after_close:
  "run E evs h = Inr hf \<Longrightarrow> data_episodes h = Some l \<Longrightarrow> max_episodes h = - int k \<Longrightarrow>
   0 < k \<Longrightarrow>
     length (the_data_episodes hf) = length l - channel_closes E evs h * k
     \<and> (channel_closes E evs h = 0 \<longrightarrow> the_data_episodes hf = l)"
proof (induction evs arbitrary: h l)
  case Nil
  then show ?case by (simp add: the_data_episodes_def)
next
  case (Cons ev evs)
  from Cons.prems(1) obtain h1 where s: "step E ev h = Inr h1" and r: "run E evs h1 = Inr hf"
    by (auto split: sum.splits)
  from step_max_episodes [OF s] Cons.prems(3) have m1: "max_episodes h1 = - int k" by simp
  show ?case
  proof (cases "is_channel_close ev h")
    case True
    let ?l1 = "slice_to (- int k) (sort_reverse (\<lambda>a. published (heap h a)) l)"
    from step_channel_close [OF s True] Cons.prems(2,3,4)
    have d1: "data_episodes h1 = Some ?l1"
      by (simp add: PodcastItem_end_def Let_def the_data_episodes_def)
    from Cons.prems(4) have len: "length ?l1 = length l - k"
      by (simp add: slice_to_neg sort_reverse_length)
    from Cons.IH [OF r d1 m1 Cons.prems(4)]
    have "length (the_data_episodes hf) = length ?l1 - channel_closes E evs h1 * k" by simp
    with len True s show ?thesis by simp
  next
    case False
    from step_data_episodes [OF s False] Cons.prems(2)
    have d1: "data_episodes h1 = Some l" by simp
    from Cons.IH [OF r d1 m1 Cons.prems(4)] False s show ?thesis by simp
  qed
qed

lemma run_negative_limit:
  "handler_wf h \<Longrightarrow> data_episodes h = None \<Longrightarrow> max_episodes h = - int k \<Longrightarrow> 0 < k \<Longrightarrow>
   run E evs h = Inr hf \<Longrightarrow> 0 < channel_closes E evs h \<Longrightarrow>
     \<exists>h1. at_first_close E evs h = Some h1
        \<and> episodes h1 = filter (closed h) (episodes h) @ qualifying E evs h
        \<and> the_data_episodes h1 = episodes h1
        \<and> length (the_data_episodes hf) = length (episodes h1) - channel_closes E evs h * k
        \<and> (channel_closes E evs h = 1 \<longrightarrow>
             the_data_episodes hf =
               take (length (episodes h1) - k) (sort_reverse (key_of h1) (episodes h1)))"
proof (induction evs arbitrary: h)
  case Nil
  then show ?case by simp
next
  case (Cons ev evs)
  from Cons.prems(5) obtain h2 where s: "step E ev h = Inr h2" and r: "run E evs h2 = Inr hf"
    by (auto split: sum.splits)
  from step_max_episodes [OF s] Cons.prems(3) have m2: "max_episodes h2 = - int k" by simp
  show ?case
  proof (cases "is_channel_close ev h")
    case True
    let ?srt = "sort_reverse (key_of h) (episodes h)"
    let ?l = "take (length (episodes h) - k) ?srt"
    from Cons.prems(2) have td: "the_data_episodes h = episodes h"
      by (simp add: the_data_episodes_def)
    from step_channel_close [OF s True] Cons.prems(2,3,4)
    have d2: "data_episodes h2 = Some ?l"
      by (simp add: PodcastItem_end_def Let_def the_data_episodes_def key_of_eq slice_to_neg
          sort_reverse_length)
    have len: "length ?l = length (episodes h) - k" by (simp add: sort_reverse_length)
    note after = run_after_close [OF r d2 m2 Cons.prems(4)]
    from after len have 1: "length (the_data_episodes hf)
        = length (episodes h) - channel_closes E (ev # evs) h * k"
      using True s by simp
    from after have 2: "channel_closes E (ev # evs) h = 1 \<longrightarrow> the_data_episodes hf = ?l"
      using True s by simp
    from channel_close_all_closed [OF Cons.prems(1) True]
    have 3: "episodes h = filter (closed h) (episodes h) @ qualifying E (ev # evs) h"
      using True by simp
    have 4: "at_first_close E (ev # evs) h = Some h" using True by simp
    from 1 2 3 4 td show ?thesis by blast
  next
    case False
    from step_data_episodes [OF s False] Cons.prems(2)
    have d2: "data_episodes h2 = None" by simp
    from Cons.prems(6) False s have c2: "0 < channel_closes E evs h2" by simp
    from Cons.IH [OF handler_wf_step [OF s Cons.prems(1)] d2 m2 Cons.prems(4) r c2]
    obtain h1 where h1: "at_first_close E evs h2 = Some h1"
      and e1: "episodes h1 = filter (closed h2) (episodes h2) @ qualifying E evs h2"
      and t1: "the_data_episodes h1 = episodes h1"
      and l1: "length (the_data_episodes hf) = length (episodes h1) - channel_closes E evs h2 * k"
      and o1: "channel_closes E evs h2 = 1 \<longrightarrow>
             the_data_episodes hf =
               take (length (episodes h1) - k) (sort_reverse (key_of h1) (episodes h1))"
      by blast
    from h1 False s have 4: "at_first_close E (ev # evs) h = Some h1" by simp
    from e1 step_closed_list [OF s Cons.prems(1) False] False s
    have 3: "episodes h1 = filter (closed h) (episodes h) @ qualifying E (ev # evs) h"
      by simp
    from False s have cc: "channel_closes E (ev # evs) h = channel_closes E evs h2" by simp
    from 4 3 t1 l1 o1 show ?thesis unfolding cc by blast
  qed
qed

text \<open>
  C10, as the code has it.  With a negative limit \<open>max_episodes = - k\<close>, \<open>k > 0\<close>, every
  channel-close event neither keeps the whole sorted list (unless it is empty) nor bounds
  the result by the limit: the slice \<^verbatim>\<open>[:-k]\<close> removes the last \<open>k\<close> episodes of the
  descending list, the \<open>k\<close> oldest, and \<open>max (n - k) 0\<close> of \<open>n\<close> episodes remain.  Over
  a whole parse of a feed with at least one channel-close event, the list at the first
  of them holds the episodes that qualified before it, and the document holds as many as
  those minus \<open>k\<close> for every channel-close event of the feed, or none; when the feed has
  exactly one channel-close event the document's list is the descending list of the
  qualifying episodes without its last \<open>k\<close>.
\<close>

theorem C10_negative_limit_drops_oldest:
  "(map_of (mapping h) (current_path h) = Some PodcastItem \<and> path_stack h \<noteq> []
      \<and> max_episodes h = - int k \<and> 0 < k \<longrightarrow>
      (\<exists>h'. endElement E name h = Inr h'
         \<and> (let n = length (the_data_episodes h); ys = the_data_episodes h';
                 srt = sort_reverse (key_of h) (the_data_episodes h)
             in ys = take (n - k) srt
              \<and> srt = ys @ drop (n - k) srt
              \<and> length (drop (n - k) srt) = min k n
              \<and> int (length ys) = max (int n - int k) 0
              \<and> (0 < n \<longrightarrow> ys \<noteq> srt)
              \<and> \<not> int (length ys) \<le> max_episodes h)))
   \<and> (let h0 = PodcastHandler MAPPING u (- int k);
           q = qualifying E evs h0; c = channel_closes E evs h0
       in 0 < k \<and> run E evs h0 = Inr hf \<and> 0 < c \<longrightarrow>
            parse E u evs (- int k) = Inr (data hf)
            \<and> (\<exists>h1. at_first_close E evs h0 = Some h1
                  \<and> the_data_episodes h1 = q
                  \<and> int (length (doc_episodes (data hf)))
                      = max (int (length q) - int c * int k) 0
                  \<and> (c = 1 \<longrightarrow>
                       the_data_episodes hf
                         = take (length q - k) (sort_reverse (key_of h1) q))))"
proof -
  have c1: "map_of (mapping h) (current_path h) = Some PodcastItem \<and> path_stack h \<noteq> []
      \<and> max_episodes h = - int k \<and> 0 < k \<longrightarrow>
      (\<exists>h'. endElement E name h = Inr h'
         \<and> (let n = length (the_data_episodes h); ys = the_data_episodes h';
                 srt = sort_reverse (key_of h) (the_data_episodes h)
             in ys = take (n - k) srt
              \<and> srt = ys @ drop (n - k) srt
              \<and> length (drop (n - k) srt) = min k n
              \<and> int (length ys) = max (int n - int k) 0
              \<and> (0 < n \<longrightarrow> ys \<noteq> srt)
              \<and> \<not> int (length ys) \<le> max_episodes h))"
  proof
    assume a: "map_of (mapping h) (current_path h) = Some PodcastItem \<and> path_stack h \<noteq> []
      \<and> max_episodes h = - int k \<and> 0 < k"
    let ?h' = "(PodcastItem_end h)\<lparr>text_buf := None, path_stack := butlast (path_stack h)\<rparr>"
    let ?n = "length (the_data_episodes h)"
    let ?srt = "sort_reverse (key_of h) (the_data_episodes h)"
    let ?ys = "the_data_episodes ?h'"
    from a have run: "endElement E name h = Inr ?h'"
      by (simp add: endElement_PodcastItem)
    have len: "length ?srt = ?n"
      by (simp add: sort_reverse_length)
    have ys: "?ys = take (?n - k) ?srt"
      using a
      by (simp add: the_data_episodes_frame the_data_episodes_PodcastItem_end slice_to_neg len)
    have l: "length ?ys = ?n - k"
      unfolding ys by (simp add: len)
    have ne: "0 < ?n \<longrightarrow> ?ys \<noteq> ?srt"
    proof
      assume "0 < ?n"
      with a have "length ?ys \<noteq> length ?srt" unfolding l len by arith
      then show "?ys \<noteq> ?srt" by auto
    qed
    have "?srt = ?ys @ drop (?n - k) ?srt" unfolding ys by simp
    moreover have "length (drop (?n - k) ?srt) = min k ?n" by (simp add: len)
    moreover have "int (length ?ys) = max (int ?n - int k) 0" unfolding l by arith
    moreover have "\<not> int (length ?ys) \<le> max_episodes h" using a by simp
    ultimately show "\<exists>h'. endElement E name h = Inr h'
         \<and> (let n = length (the_data_episodes h); ys = the_data_episodes h';
                 srt = sort_reverse (key_of h) (the_data_episodes h)
             in ys = take (n - k) srt
              \<and> srt = ys @ drop (n - k) srt
              \<and> length (drop (n - k) srt) = min k n
              \<and> int (length ys) = max (int n - int k) 0
              \<and> (0 < n \<longrightarrow> ys \<noteq> srt)
              \<and> \<not> int (length ys) \<le> max_episodes h)"
      unfolding Let_def using run ys ne by blast
  qed
  let ?h0 = "PodcastHandler MAPPING u (- int k)"
  let ?q = "qualifying E evs ?h0"
  let ?c = "channel_closes E evs ?h0"
  have c2: "0 < k \<and> run E evs ?h0 = Inr hf \<and> 0 < ?c \<longrightarrow>
            parse E u evs (- int k) = Inr (data hf)
            \<and> (\<exists>h1. at_first_close E evs ?h0 = Some h1
                  \<and> the_data_episodes h1 = ?q
                  \<and> int (length (doc_episodes (data hf)))
                      = max (int (length ?q) - int ?c * int k) 0
                  \<and> (?c = 1 \<longrightarrow>
                       the_data_episodes hf
                         = take (length ?q - k) (sort_reverse (key_of h1) ?q)))"
  proof
    assume a: "0 < k \<and> run E evs ?h0 = Inr hf \<and> 0 < ?c"
    then have k: "0 < k" and r: "run E evs ?h0 = Inr hf" and c: "0 < ?c" by simp_all
    have i: "data_episodes ?h0 = None" "max_episodes ?h0 = - int k"
      "filter (closed ?h0) (episodes ?h0) = []"
      by (simp_all add: PodcastHandler_def)
    from run_negative_limit [OF handler_wf_init i(1,2) k r c]
    obtain h1 where f: "at_first_close E evs ?h0 = Some h1"
      and e: "episodes h1 = filter (closed ?h0) (episodes ?h0) @ ?q"
      and t: "the_data_episodes h1 = episodes h1"
      and l: "length (the_data_episodes hf) = length (episodes h1) - ?c * k"
      and o: "?c = 1 \<longrightarrow> the_data_episodes hf
                = take (length (episodes h1) - k) (sort_reverse (key_of h1) (episodes h1))"
      by blast
    from e i(3) have eq: "episodes h1 = ?q" by simp
    from r have p: "parse E u evs (- int k) = Inr (data hf)" by (simp add: parse_def)
    have "length (doc_episodes (data hf)) = length ?q - ?c * k"
      using l unfolding eq by (simp add: data_def)
    moreover have "int (a - m) = max (int a - int m) 0" for a m :: nat
      by arith
    ultimately have n: "int (length (doc_episodes (data hf)))
        = max (int (length ?q) - int ?c * int k) 0"
      by simp
    from t eq have t': "the_data_episodes h1 = ?q" by simp
    from o have o': "?c = 1 \<longrightarrow> the_data_episodes hf
                = take (length ?q - k) (sort_reverse (key_of h1) ?q)"
      unfolding eq .
    from f t' n o' have "\<exists>h1. at_first_close E evs ?h0 = Some h1
                  \<and> the_data_episodes h1 = ?q
                  \<and> int (length (doc_episodes (data hf)))
                      = max (int (length ?q) - int ?c * int k) 0
                  \<and> (?c = 1 \<longrightarrow>
                       the_data_episodes hf
                         = take (length ?q - k) (sort_reverse (key_of h1) ?q))"
      by (intro exI conjI)
    with p show "parse E u evs (- int k) = Inr (data hf)
            \<and> (\<exists>h1. at_first_close E evs ?h0 = Some h1
                  \<and> the_data_episodes h1 = ?q
                  \<and> int (length (doc_episodes (data hf)))
                      = max (int (length ?q) - int ?c * int k) 0
                  \<and> (?c = 1 \<longrightarrow>
                       the_data_episodes hf
                         = take (length ?q - k) (sort_reverse (key_of h1) ?q)))"
      by (rule conjI)
  qed
  show ?thesis unfolding Let_def by (rule conjI [OF c1 [unfolded Let_def] c2])
qed

lemma two_channel_feed_run:
  "qualifying sample_env two_channel_feed (PodcastHandler MAPPING ''http://x/feed.xml'' (- 1))
     = [0, 1, 2]
   \<and> channel_closes sample_env two_channel_feed
        (PodcastHandler MAPPING ''http://x/feed.xml'' (- 1)) = 2
   \<and> map published (episodes_of (parse sample_env ''http://x/feed.xml'' two_channel_feed (- 1)))
        = [9]"
  by code_simp

text \<open>
  C10 as stated fails for a feed with more than one channel-close event: with
  \<open>max_episodes = -1\<close>, three qualifying episodes in a first \<^verbatim>\<open><channel>\<close> and a second,
  empty \<^verbatim>\<open><channel>\<close>, the slice is taken twice and the document holds one episode,
  not \<open>max (3 - 1) 0 = 2\<close>.
\<close>

theorem C10_counterexample:
  "length (qualifying sample_env two_channel_feed
             (PodcastHandler MAPPING ''http://x/feed.xml'' (- 1))) = 3
   \<and> map published (episodes_of (parse sample_env ''http://x/feed.xml'' two_channel_feed (- 1)))
        = [9]
   \<and> int (length (episodes_of (parse sample_env ''http://x/feed.xml'' two_channel_feed (- 1))))
        \<noteq> max (3 - 1) 0"
proof -
  note r = two_channel_feed_run
  from r have q: "length (qualifying sample_env two_channel_feed
             (PodcastHandler MAPPING ''http://x/feed.xml'' (- 1))) = 3"
    by simp
  from r have p: "map published (episodes_of (parse sample_env ''http://x/feed.xml''
      two_channel_feed (- 1))) = [9]"
    by simp
  then have "length (map published (episodes_of (parse sample_env ''http://x/feed.xml''
      two_channel_feed (- 1)))) = 1"
    by simp
  then have l: "int (length (episodes_of (parse sample_env ''http://x/feed.xml''
      two_channel_feed (- 1)))) \<noteq> max (3 - 1) 0"
    by simp
  show ?thesis by (intro conjI q p l)
qed

lemma two_item_feed_negative:
  "final_refs (run sample_env two_item_feed
      (PodcastHandler MAPPING ''http://x/feed.xml'' (- int 1))) = [1]
   \<and> channel_closes sample_env two_item_feed
        (PodcastHandler MAPPING ''http://x/feed.xml'' (- int 1)) = 1
   \<and> qualifying sample_env two_item_feed
        (PodcastHandler MAPPING ''http://x/feed.xml'' (- int 1)) = [0, 1]"
  by code_simp

theorem C10_witness:
  "map_of (mapping (channel_handler (- 1))) (current_path (channel_handler (- 1)))
     = Some PodcastItem
   \<and> path_stack (channel_handler (- 1)) \<noteq> []
   \<and> max_episodes (channel_handler (- 1)) = - int 1 \<and> (0::nat) < 1
   \<and> (\<exists>h'. endElement sample_env ''channel'' (channel_handler (- 1)) = Inr h'
         \<and> the_data_episodes h' = [1, 2])
   \<and> 0 < channel_closes sample_env two_item_feed
        (PodcastHandler MAPPING ''http://x/feed.xml'' (- int 1))
   \<and> channel_closes sample_env two_item_feed
        (PodcastHandler MAPPING ''http://x/feed.xml'' (- int 1)) = 1
   \<and> qualifying sample_env two_item_feed
        (PodcastHandler MAPPING ''http://x/feed.xml'' (- int 1)) = [0, 1]
   \<and> (\<exists>hf. run sample_env two_item_feed
              (PodcastHandler MAPPING ''http://x/feed.xml'' (- int 1)) = Inr hf
         \<and> parse sample_env ''http://x/feed.xml'' two_item_feed (- int 1) = Inr (data hf)
         \<and> the_data_episodes hf = [1]
         \<and> length (doc_episodes (data hf)) = 1
         \<and> (\<exists>h1. at_first_close sample_env two_item_feed
                    (PodcastHandler MAPPING ''http://x/feed.xml'' (- int 1)) = Some h1
               \<and> the_data_episodes h1 = [0, 1]
               \<and> the_data_episodes hf = take (2 - 1) (sort_reverse (key_of h1) [0, 1])))"
proof -
  note c = C10_negative_limit_drops_oldest
  let ?h0 = "PodcastHandler MAPPING ''http://x/feed.xml'' (- int 1)"
  let ?r = "run sample_env two_item_feed ?h0"
  have h1: "map_of (mapping (channel_handler (- 1))) (current_path (channel_handler (- 1)))
              = Some PodcastItem"
    and h2: "path_stack (channel_handler (- 1)) \<noteq> []"
    by (rule channel_handler_close)+
  have h3: "max_episodes (channel_handler (- 1)) = - int 1"
    by (simp add: channel_handler_close)
  have h4: "(0::nat) < 1" by simp
  from c [where h = "channel_handler (- 1)" and k = 1 and E = sample_env
        and name = "''channel''", THEN conjunct1, THEN mp, OF conjI [OF h1 conjI [OF h2
        conjI [OF h3 h4]]]]
  obtain h' where "endElement sample_env ''channel'' (channel_handler (- 1)) = Inr h'"
    and "the_data_episodes h' = take (length (the_data_episodes (channel_handler (- 1))) - 1)
           (sort_reverse (key_of (channel_handler (- 1)))
              (the_data_episodes (channel_handler (- 1))))"
    unfolding Let_def by blast
  then have 5: "\<exists>h'. endElement sample_env ''channel'' (channel_handler (- 1)) = Inr h'
      \<and> the_data_episodes h' = [1, 2]"
    unfolding channel_handler_close channel_handler_sorted by simp
  note f = two_item_feed_negative
  from f have cc: "channel_closes sample_env two_item_feed ?h0 = 1"
    by (rule conjunct2 [THEN conjunct1])
  from f have q: "qualifying sample_env two_item_feed ?h0 = [0, 1]"
    by (rule conjunct2 [THEN conjunct2])
  from cc have cp: "0 < channel_closes sample_env two_item_feed ?h0" by simp
  from f have "final_refs ?r \<noteq> []" by simp
  then obtain hf where hf: "?r = Inr hf"
    by (cases ?r) (simp_all add: final_refs_def)
  with f have fr: "the_data_episodes hf = [1]"
    by (simp add: final_refs_def)
  note w = c [where k = 1 and E = sample_env and evs = two_item_feed
        and u = "''http://x/feed.xml''" and hf = hf, THEN conjunct2, unfolded Let_def,
        THEN mp, OF conjI [OF h4 conjI [OF hf cp]]]
  from w have pa: "parse sample_env ''http://x/feed.xml'' two_item_feed (- int 1)
      = Inr (data hf)"
    by (rule conjunct1)
  from w obtain g where g: "at_first_close sample_env two_item_feed ?h0 = Some g"
    and tg: "the_data_episodes g = qualifying sample_env two_item_feed ?h0"
    and one: "channel_closes sample_env two_item_feed ?h0 = 1 \<longrightarrow>
        the_data_episodes hf
          = take (length (qualifying sample_env two_item_feed ?h0) - 1)
              (sort_reverse (key_of g) (qualifying sample_env two_item_feed ?h0))"
    by blast
  from tg have tg': "the_data_episodes g = [0, 1]" unfolding q .
  from one cc have "the_data_episodes hf
          = take (length (qualifying sample_env two_item_feed ?h0) - 1)
              (sort_reverse (key_of g) (qualifying sample_env two_item_feed ?h0))"
    by (rule mp)
  then have tk: "the_data_episodes hf = take (2 - 1) (sort_reverse (key_of g) [0, 1])"
    unfolding q by simp
  from fr have ln: "length (doc_episodes (data hf)) = 1" by (simp add: data_def)
  from g tg' tk have 7: "\<exists>h1. at_first_close sample_env two_item_feed ?h0 = Some h1
               \<and> the_data_episodes h1 = [0, 1]
               \<and> the_data_episodes hf = take (2 - 1) (sort_reverse (key_of h1) [0, 1])"
    by (intro exI conjI)
  have 6: "\<exists>hf. ?r = Inr hf
         \<and> parse sample_env ''http://x/feed.xml'' two_item_feed (- int 1) = Inr (data hf)
         \<and> the_data_episodes hf = [1]
         \<and> length (doc_episodes (data hf)) = 1
         \<and> (\<exists>h1. at_first_close sample_env two_item_feed ?h0 = Some h1
               \<and> the_data_episodes h1 = [0, 1]
               \<and> the_data_episodes hf = take (2 - 1) (sort_reverse (key_of h1) [0, 1]))"
    by (rule exI [where x = hf]) (intro conjI hf pa fr ln 7)
  show ?thesis by (intro conjI h1 h2 h3 h4 5 cp cc q 6)
qed


end
